theory Spec2Isabelle
  imports Main
begin

section \<open>Process supervision: \<open>AdapterProcess\<close> (src/extension/util.ts)\<close>

text \<open>
  The class keeps a flag \<open>isAlive\<close> and a handle to the child process. Its constructor
  sets the flag and registers one \<open>exit\<close> listener on the process; \<open>terminate\<close> calls
  \<open>process.kill()\<close> when the flag is set. What the object does to its surroundings is made
  explicit: \<open>kills\<close> counts the calls of \<open>process.kill()\<close>, \<open>outputLines\<close> is what was
  appended to the output channel. The three revisions of the class in the source differ
  only in how the two log lines are formatted.
\<close>

datatype log_line =
  TerminatedBySignal string   \<comment> \<open>\<open>Adapter terminated by ${signal} signal.\<close>\<close>
| AdapterExitCode int         \<comment> \<open>\<open>Adapter exit code: ${code}\<close>\<close>

record AdapterProcess =
  isAlive :: bool
  port :: "int option"
  kills :: nat
  outputLines :: "log_line list"

definition newAdapterProcess :: AdapterProcess where
  "newAdapterProcess = \<lparr>isAlive = True, port = None, kills = 0, outputLines = []\<rparr>"

text \<open>The \<open>exit\<close> listener; \<open>code\<close> and \<open>signal\<close> are \<open>null\<close> (\<open>None\<close>) or a value, and
  the two \<open>if\<close>s test JavaScript truthiness: a non-empty string, a non-zero number.\<close>

definition onExit :: "int option \<Rightarrow> string option \<Rightarrow> AdapterProcess \<Rightarrow> AdapterProcess" where
  "onExit code signal p =
     p\<lparr>isAlive := False,
       outputLines := outputLines p
         @ (case signal of Some s \<Rightarrow> (if s \<noteq> [] then [TerminatedBySignal s] else []) | None \<Rightarrow> [])
         @ (case code of Some c \<Rightarrow> (if c \<noteq> 0 then [AdapterExitCode c] else []) | None \<Rightarrow> [])\<rparr>"

definition terminate :: "AdapterProcess \<Rightarrow> AdapterProcess" where
  "terminate p = (if isAlive p then p\<lparr>kills := kills p + 1\<rparr> else p)"

text \<open>What can happen to an \<open>AdapterProcess\<close> after its construction: the process emits
  \<open>exit\<close>, or somebody calls \<open>terminate()\<close>.\<close>

datatype adapter_event = ProcessExit "int option" "string option" | CallTerminate

fun adapterStep :: "AdapterProcess \<Rightarrow> adapter_event \<Rightarrow> AdapterProcess" where
  "adapterStep p (ProcessExit code signal) = onExit code signal p"
| "adapterStep p CallTerminate = terminate p"

definition adapterRun :: "adapter_event list \<Rightarrow> AdapterProcess" where
  "adapterRun es = foldl adapterStep newAdapterProcess es"

fun isExit :: "adapter_event \<Rightarrow> bool" where
  "isExit (ProcessExit _ _) = True"
| "isExit CallTerminate = False"

section \<open>Waiting for a user-visible stop: \<open>waitForStopEvent\<close> (src/tests/adapter.test.ts)\<close>

text \<open>
  The method returns a promise and adds a listener for \<open>stopped\<close> events to the session.
  The listener resolves the promise with the first event whose reason is not
  \<open>initial\<close> and removes itself; an \<open>initial\<close> event is logged and otherwise ignored.
\<close>

record StoppedEvent =
  reason :: string
  threadId :: "int option"

record stop_waiter =
  listening :: bool                      \<comment> \<open>the handler is registered on the session\<close>
  resolved :: "StoppedEvent option"      \<comment> \<open>the settled value of the promise\<close>
  ignoredLog :: nat                      \<comment> \<open>number of \<open>Ignored "initial" event\<close> lines\<close>

definition waitForStopEvent :: stop_waiter where
  "waitForStopEvent = \<lparr>listening = True, resolved = None, ignoredLog = 0\<rparr>"

text \<open>\<open>resolve\<close> of a promise that is already settled does nothing.\<close>

definition stopHandler :: "StoppedEvent \<Rightarrow> stop_waiter \<Rightarrow> stop_waiter" where
  "stopHandler event w =
     (if reason event \<noteq> ''initial''
      then w\<lparr>listening := False,
             resolved := (case resolved w of None \<Rightarrow> Some event | Some e \<Rightarrow> Some e)\<rparr>
      else w\<lparr>ignoredLog := ignoredLog w + 1\<rparr>)"

text \<open>The session emits a \<open>stopped\<close> event: the handler runs if it is still registered.\<close>

definition emitStopped :: "stop_waiter \<Rightarrow> StoppedEvent \<Rightarrow> stop_waiter" where
  "emitStopped w event = (if listening w then stopHandler event w else w)"

definition stopWaiterRun :: "StoppedEvent list \<Rightarrow> stop_waiter" where
  "stopWaiterRun evs = foldl emitStopped waitForStopEvent evs"

section \<open>The startup handshake: \<open>waitForPattern\<close> (src/extension/util.ts)\<close>

text \<open>
  \<open>waitForPattern\<close> returns a promise and registers four callbacks: for \<open>data\<close> on the
  channel, for \<open>error\<close> and \<open>exit\<close> of the process, and a timer. JavaScript runs each
  callback to completion, so a run of the function is the sequence of callbacks that the
  event loop calls, each a function on the variables the closures share:
  \<open>promisePending\<close>, \<open>processOutput\<close>, the timer and the promise itself. The calls of
  \<open>process.kill()\<close> are counted in \<open>killCalls\<close>.

  A promise is settled once: \<open>resolve\<close> and \<open>reject\<close> on a settled promise do nothing
  (\<open>settle\<close>). The pattern is a parameter, the function that \<open>pattern.exec\<close> computes on
  the accumulated text. A chunk is the text that \<open>chunk.toString()\<close> yields.
\<close>

datatype rejection =
  ProcessError string
    \<comment> \<open>the \<open>err\<close> that the process passed to its \<open>error\<close> listeners\<close>
| StartupError string string "string option"
    \<comment> \<open>\<open>err.code\<close>, the message and \<open>err.stdout\<close> of the errors made here\<close>

datatype 'm settled = Pending | Resolved 'm | Rejected rejection

definition settle :: "'m settled \<Rightarrow> 'm settled \<Rightarrow> 'm settled" where
  "settle p v = (case p of Pending \<Rightarrow> v | _ \<Rightarrow> p)"

record 'm wait_state =
  promisePending :: bool
  processOutput :: "string option"   \<comment> \<open>\<open>None\<close> is \<open>null\<close>\<close>
  timerArmed :: bool                  \<comment> \<open>set by \<open>setTimeout\<close>, cleared by \<open>clearTimeout\<close> and by firing\<close>
  promise :: "'m settled"
  killCalls :: nat

definition waitForPattern :: "'m wait_state" where
  "waitForPattern =
     \<lparr>promisePending = True, processOutput = Some [], timerArmed = True,
      promise = Pending, killCalls = 0\<rparr>"

text \<open>\<open>processOutput += chunkStr\<close>: on \<open>null\<close> JavaScript appends to the text \<open>null\<close>.\<close>

definition onData :: "(string \<Rightarrow> 'm option) \<Rightarrow> string \<Rightarrow> 'm wait_state \<Rightarrow> 'm wait_state" where
  "onData pattern chunkStr s =
     (if promisePending s then
        (let out = (case processOutput s of None \<Rightarrow> ''null'' | Some t \<Rightarrow> t) @ chunkStr in
         case pattern out of
           Some match \<Rightarrow>
             s\<lparr>timerArmed := False, processOutput := None, promisePending := False,
               promise := settle (promise s) (Resolved match)\<rparr>
         | None \<Rightarrow> s\<lparr>processOutput := Some out\<rparr>)
      else s)"

definition onError :: "string \<Rightarrow> 'm wait_state \<Rightarrow> 'm wait_state" where
  "onError err s =
     s\<lparr>promisePending := False, promise := settle (promise s) (Rejected (ProcessError err))\<rparr>"

definition onTimer :: "'m wait_state \<Rightarrow> 'm wait_state" where
  "onTimer s =
     (if promisePending s then
        s\<lparr>killCalls := killCalls s + 1, promisePending := False,
          promise := settle (promise s)
            (Rejected (StartupError ''Timeout''
               ''The debugger did not start within the allotted time.'' (processOutput s)))\<rparr>
      else s)"

definition onProcessExit :: "'m wait_state \<Rightarrow> 'm wait_state" where
  "onProcessExit s =
     (if promisePending s then
        s\<lparr>promisePending := False,
          promise := settle (promise s)
            (Rejected (StartupError ''Handshake''
               ''The debugger exited without completing startup handshake.'' (processOutput s)))\<rparr>
      else s)"

text \<open>The events of a run. The timer calls its callback once, and only while it is armed.\<close>

datatype wait_event =
  Data string | ProcError string | TimerFired | Exited "int option" "string option"

fun waitStep :: "(string \<Rightarrow> 'm option) \<Rightarrow> 'm wait_state \<Rightarrow> wait_event \<Rightarrow> 'm wait_state" where
  "waitStep pattern s (Data chunkStr) = onData pattern chunkStr s"
| "waitStep pattern s (ProcError err) = onError err s"
| "waitStep pattern s TimerFired =
     (if timerArmed s then onTimer (s\<lparr>timerArmed := False\<rparr>) else s)"
| "waitStep pattern s (Exited code signal) = onProcessExit s"

definition waitRun :: "(string \<Rightarrow> 'm option) \<Rightarrow> wait_event list \<Rightarrow> 'm wait_state" where
  "waitRun pattern es = foldl (waitStep pattern) waitForPattern es"

subsection \<open>The pattern of \<open>startDebugAdapter\<close>\<close>

text \<open>
  \<open>new RegExp('^Listening on port (\\d+)\\s', 'm')\<close>: at the start of a line, the text
  \<open>Listening on port\<close> and a space, one or more digits (all of them: a shorter run would be
  followed by a digit, not by white space), one white-space character. \<open>exec\<close> returns the
  leftmost match: the matched text and the digits. Characters are the code units below
  256; of those, \<open>\\s\<close> matches tab, line feed, vertical tab, form feed, carriage return,
  space and the no-break space, and a line starts after a line feed or a carriage return.
\<close>

definition isDigit :: "char \<Rightarrow> bool" where
  "isDigit c = (c \<in> set ''0123456789'')"

definition isSpace :: "char \<Rightarrow> bool" where
  "isSpace c =
     (c \<in> set [CHR 0x09, CHR 0x0A, CHR 0x0B, CHR 0x0C, CHR 0x0D, CHR '' '', CHR 0xA0])"

definition isLineTerminator :: "char \<Rightarrow> bool" where
  "isLineTerminator c = (c = CHR 0x0A \<or> c = CHR 0x0D)"

fun stripPrefix :: "string \<Rightarrow> string \<Rightarrow> string option" where
  "stripPrefix [] s = Some s"
| "stripPrefix (x # xs) [] = None"
| "stripPrefix (x # xs) (y # ys) = (if x = y then stripPrefix xs ys else None)"

definition matchHere :: "string \<Rightarrow> string list option" where
  "matchHere s =
     (case stripPrefix ''Listening on port '' s of
        None \<Rightarrow> None
      | Some rest \<Rightarrow>
          (let ds = takeWhile isDigit rest in
           if ds = [] then None
           else (case dropWhile isDigit rest of
                   [] \<Rightarrow> None
                 | c # _ \<Rightarrow>
                     if isSpace c then Some [''Listening on port '' @ ds @ [c], ds] else None)))"

fun scanLines :: "bool \<Rightarrow> string \<Rightarrow> string list option" where
  "scanLines atLineStart [] = None"
| "scanLines atLineStart (c # cs) =
     (case (if atLineStart then matchHere (c # cs) else None) of
        Some m \<Rightarrow> Some m
      | None \<Rightarrow> scanLines (isLineTerminator c) cs)"

definition handshakePattern :: "string \<Rightarrow> string list option" where
  "handshakePattern s = scanLines True s"

subsection \<open>Notions used to state the properties of the handshake\<close>

text \<open>What every reachable state satisfies: the flag \<open>promisePending\<close> is up exactly while the
  promise is pending, and then the timer is armed and the buffer is a text.\<close>

definition wait_inv :: "'m wait_state \<Rightarrow> bool" where
  "wait_inv s \<longleftrightarrow>
     (promisePending s \<longleftrightarrow> promise s = Pending)
     \<and> (promisePending s \<longrightarrow> timerArmed s \<and> processOutput s \<noteq> None)"

fun isData :: "wait_event \<Rightarrow> bool" where
  "isData (Data _) = True"
| "isData _ = False"

section \<open>The composite operations \<open>launch\<close> and \<open>attach\<close> (src/tests/adapter.test.ts)\<close>

text \<open>
  Both methods have the same body, with \<open>launchRequest\<close> or \<open>attachRequest\<close> as the
  second request. An \<open>async\<close> function runs until its next \<open>await\<close> of a promise that is
  not settled yet and resumes when the message that settles the promise is dispatched. So
  a run is the sequence of incoming messages, and the state is where the body is suspended
  (\<open>pc\<close>), what was written to the channel (\<open>sent\<close>), and the two promises the body holds:
  \<open>waitForInit\<close> and the response of the second request.
  A request method of the session writes the request and returns the promise of its
  response; \<open>waitForEvent\<close> returns the promise of the next event of that name. Both
  belong to the client library; a time limit that the library may put on them is not
  part of the model.
\<close>

datatype request = Initialize | Launch | Attach | ConfigurationDone

datatype message =
  InitializeResponse bool       \<comment> \<open>the response to \<open>initialize\<close>, with its \<open>success\<close>\<close>
| InitializedEvent
| StartResponse bool            \<comment> \<open>the response to \<open>launch\<close> or \<open>attach\<close>\<close>

datatype launch_pc =
  AwaitInitializeResponse       \<comment> \<open>suspended in \<open>await this.initializeRequest()\<close>\<close>
| AwaitInitialized              \<comment> \<open>suspended in \<open>await waitForInit\<close>\<close>
| Returned                      \<comment> \<open>\<open>return launchResp\<close> was reached\<close>
| Thrown                        \<comment> \<open>the awaited \<open>initialize\<close> response was a failure\<close>

record launch_state =
  pc :: launch_pc
  sent :: "request list"
  initializedSeen :: bool              \<comment> \<open>\<open>waitForInit\<close> is resolved\<close>
  startResponse :: "bool option"       \<comment> \<open>the response that settled \<open>launchResp\<close>, if any\<close>

text \<open>The call itself: \<open>waitForEvent\<close>, the \<open>initialize\<close> request, the first \<open>await\<close>.\<close>

definition launchStart :: launch_state where
  "launchStart =
     \<lparr>pc = AwaitInitializeResponse, sent = [Initialize], initializedSeen = False,
      startResponse = None\<rparr>"

text \<open>The rest of the body after \<open>await waitForInit\<close>.\<close>

definition afterInitialized :: "launch_state \<Rightarrow> launch_state" where
  "afterInitialized s = s\<lparr>sent := sent s @ [ConfigurationDone], pc := Returned\<rparr>"

text \<open>The body after \<open>await this.initializeRequest()\<close>: the second request, then
  \<open>await waitForInit\<close>, which goes on at once when the event has been seen.\<close>

definition afterInitializeResponse :: "request \<Rightarrow> launch_state \<Rightarrow> launch_state" where
  "afterInitializeResponse start s =
     (let s' = s\<lparr>sent := sent s @ [start]\<rparr> in
      if initializedSeen s' then afterInitialized s' else s'\<lparr>pc := AwaitInitialized\<rparr>)"

fun launchStep :: "request \<Rightarrow> launch_state \<Rightarrow> message \<Rightarrow> launch_state" where
  "launchStep start s (InitializeResponse ok) =
     (if pc s = AwaitInitializeResponse
      then (if ok then afterInitializeResponse start s else s\<lparr>pc := Thrown\<rparr>)
      else s)"
| "launchStep start s InitializedEvent =
     (let s' = s\<lparr>initializedSeen := True\<rparr> in
      if pc s = AwaitInitialized then afterInitialized s' else s')"
| "launchStep start s (StartResponse ok) =
     (if start \<in> set (sent s) \<and> startResponse s = None
      then s\<lparr>startResponse := Some ok\<rparr> else s)"

definition launchRun :: "request \<Rightarrow> message list \<Rightarrow> launch_state" where
  "launchRun start msgs = foldl (launchStep start) launchStart msgs"

definition launch :: "message list \<Rightarrow> launch_state" where
  "launch msgs = launchRun Launch msgs"

definition attach :: "message list \<Rightarrow> launch_state" where
  "attach msgs = launchRun Attach msgs"

fun isInitializeResponse :: "message \<Rightarrow> bool" where
  "isInitializeResponse (InitializeResponse _) = True"
| "isInitializeResponse _ = False"

section \<open>Comparing a variable tree: \<open>compareVariables\<close> (src/tests/adapter.test.ts)\<close>

text \<open>
  \<open>compareVariables (varRef, expected, prefix)\<close> asks the back end for the children of
  \<open>varRef\<close> and walks over the keys of \<open>expected\<close>. Every check is an assertion of Node's
  \<open>assert\<close> module, which throws when it fails; there is no other error handling in the
  method, so the first failing assertion ends the call.

  An expected shape is a JavaScript value: \<open>null\<close> or \<open>undefined\<close>, a string, a number, an
  object with its keys in the order of \<open>Object.keys\<close>, or something else (a boolean, say).
  The type of numbers is a parameter \<open>'n\<close>, and what the method uses of JavaScript is
  passed in: \<open>parseFloat\<close>, the comparison \<open>==\<close> of two numbers, the comparison \<open>==\<close> of a
  string with a summary that is neither a string nor \<open>null\<close>, and which members the
  object \<open>vars\<close> inherits (\<open>inheritedMember\<close>, see \<open>lookupVar\<close>).
\<close>

datatype 'n expected =
  ENull
| EStr string
| ENum 'n
| EBool bool
| EObj "(string \<times> 'n expected) list"

record Variable =
  varName :: string
  varValue :: string
  variablesReference :: int

record 'n js_ops =
  parseFloat :: "string \<Rightarrow> 'n"
  numEq :: "'n \<Rightarrow> 'n \<Rightarrow> bool"
  looseEq :: "string \<Rightarrow> 'n expected \<Rightarrow> bool"
  inheritedMember :: "Variable option \<Rightarrow> string \<Rightarrow> bool"

text \<open>The failed assertion, with the parts that its message is made of. A reference is
  an \<open>int option\<close>, \<open>None\<close> for \<open>undefined\<close>.\<close>

datatype 'n failure =
  ExpectedNonZero
    \<comment> \<open>\<open>Expected non-zero.\<close>\<close>
| DidNotFind string
    \<comment> \<open>\<open>Did not find variable "keyPath"\<close>\<close>
| StringMismatch string string string
    \<comment> \<open>\<open>"keyPath": expected: "expectedValue", actual: "variable.value"\<close>\<close>
| NumberMismatch string 'n 'n
    \<comment> \<open>\<open>"keyPath": expected: expectedValue, actual: numValue\<close>\<close>
| SummaryMismatch string "'n expected" string
    \<comment> \<open>\<open>Summary of "keyPath", expected: "summary", actual: "variable.value"\<close>\<close>
| Unreachable
    \<comment> \<open>\<open>Unreachable\<close>\<close>
| RequestFailed "int option"
    \<comment> \<open>the \<open>variables\<close> request for this reference was answered with an error\<close>


text \<open>
  \<open>vars\<close> starts as the empty object \<open>{}\<close>, and \<open>vars[v.name] = v\<close> is done for every
  variable of the response, in order. The assignment makes an own property, except for
  the name \<open>__proto__\<close>: there it makes the variable the prototype of \<open>vars\<close>.
\<close>

record vars_object =
  own :: "string \<rightharpoonup> Variable"
  proto :: "Variable option"

definition assignVar :: "vars_object \<Rightarrow> Variable \<Rightarrow> vars_object" where
  "assignVar vars v =
     (if varName v = ''__proto__'' then vars\<lparr>proto := Some v\<rparr>
      else vars\<lparr>own := (own vars)(varName v \<mapsto> v)\<rparr>)"

definition collectVars :: "Variable list \<Rightarrow> vars_object" where
  "collectVars vs = foldl assignVar \<lparr>own = Map.empty, proto = None\<rparr> vs"

text \<open>
  \<open>vars[key]\<close> is an own property, that is a variable of the response; or a member that
  \<open>vars\<close> inherits, from \<open>Object.prototype\<close> (\<open>constructor\<close>, \<open>toString\<close>, ...) or through a
  variable that became its prototype; or \<open>undefined\<close> (\<open>None\<close>). \<open>inheritedMember proto key\<close>
  says that \<open>vars\<close> with that prototype inherits a member \<open>key\<close> which is neither \<open>null\<close>
  nor \<open>undefined\<close>. An inherited member (a function, a string, a number) has itself no
  member \<open>value\<close> or \<open>variablesReference\<close>: both are \<open>undefined\<close>.
  \<open>vars['__proto__']\<close> is the prototype itself.
\<close>

datatype found = Own Variable | Inherited

definition lookupVar :: "'n js_ops \<Rightarrow> vars_object \<Rightarrow> string \<Rightarrow> found option" where
  "lookupVar js vars key =
     (case own vars key of
        Some v \<Rightarrow> Some (Own v)
      | None \<Rightarrow>
          if key = ''__proto__''
          then (case proto vars of Some v \<Rightarrow> Some (Own v) | None \<Rightarrow> Some Inherited)
          else if inheritedMember js (proto vars) key then Some Inherited else None)"

fun foundValue :: "found \<Rightarrow> string option" where
  "foundValue (Own v) = Some (varValue v)"
| "foundValue Inherited = None"

fun foundReference :: "found \<Rightarrow> int option" where
  "foundReference (Own v) = Some (variablesReference v)"
| "foundReference Inherited = None"

text \<open>A value in a message, and as the argument of \<open>parseFloat\<close>: \<open>undefined\<close> becomes the
  text \<open>undefined\<close>.\<close>

fun shown :: "string option \<Rightarrow> string" where
  "shown (Some s) = s"
| "shown None = ''undefined''"

definition keyPathOf :: "string \<Rightarrow> string \<Rightarrow> string" where
  "keyPathOf prefix key = (if length prefix > 0 then prefix @ ''.'' @ key else key)"

text \<open>\<open>expectedValue['$']\<close> and the assertion on it: skipped when the summary is
  \<open>undefined\<close> or \<open>null\<close> (\<open>summary != undefined\<close>), string equality for a string; a value
  that is \<open>undefined\<close> equals no summary that is checked. The result is the summary that
  the value failed to equal, if any.\<close>

definition failedSummary ::
    "'n js_ops \<Rightarrow> (string \<times> 'n expected) list \<Rightarrow> string option \<Rightarrow> 'n expected option" where
  "failedSummary js shape actual =
     (case map_of shape ''$'' of
        None \<Rightarrow> None
      | Some ENull \<Rightarrow> None
      | Some (EStr s) \<Rightarrow> (if actual = Some s then None else Some (EStr s))
      | Some summary \<Rightarrow>
          (case actual of
             Some a \<Rightarrow> (if looseEq js a summary then None else Some summary)
           | None \<Rightarrow> Some summary))"

text \<open>
  The back end is the function from a reference to the children it answers with (\<open>None\<close>:
  the request fails and the awaited promise throws). The references requested so far are
  threaded through as a log. \<open>compareKeys\<close> is the \<open>for\<close> loop over \<open>Object.keys(expected)\<close>.
  The reference of the recursive call is \<open>variable.variablesReference\<close>, which is
  \<open>undefined\<close> for an inherited member; \<open>undefined != 0\<close> holds.
\<close>

fun compareVariables ::
    "'n js_ops \<Rightarrow> (int option \<Rightarrow> Variable list option) \<Rightarrow> int option
      \<Rightarrow> (string \<times> 'n expected) list \<Rightarrow> string \<Rightarrow> int option list
      \<Rightarrow> ('n failure + unit) \<times> int option list"
  and compareKeys ::
    "'n js_ops \<Rightarrow> (int option \<Rightarrow> Variable list option) \<Rightarrow> vars_object
      \<Rightarrow> (string \<times> 'n expected) list \<Rightarrow> string \<Rightarrow> int option list
      \<Rightarrow> ('n failure + unit) \<times> int option list"
where
  "compareVariables js backend varRef expected prefix log =
     (if varRef = Some 0 then (Inl ExpectedNonZero, log)
      else (case backend varRef of
              None \<Rightarrow> (Inl (RequestFailed varRef), log @ [varRef])
            | Some variables \<Rightarrow>
                compareKeys js backend (collectVars variables) expected prefix (log @ [varRef])))"
| "compareKeys js backend vars [] prefix log = (Inr (), log)"
| "compareKeys js backend vars ((key, expectedValue) # rest) prefix log =
     (if key = ''$'' then compareKeys js backend vars rest prefix log
      else
        (let keyPath = keyPathOf prefix key in
         case lookupVar js vars key of
           None \<Rightarrow> (Inl (DidNotFind keyPath), log)
         | Some variable \<Rightarrow>
             (case expectedValue of
                ENull \<Rightarrow> compareKeys js backend vars rest prefix log
              | EStr s \<Rightarrow>
                  if foundValue variable = Some s
                  then compareKeys js backend vars rest prefix log
                  else (Inl (StringMismatch keyPath s (shown (foundValue variable))), log)
              | ENum n \<Rightarrow>
                  if numEq js (parseFloat js (shown (foundValue variable))) n
                  then compareKeys js backend vars rest prefix log
                  else (Inl (NumberMismatch keyPath n
                              (parseFloat js (shown (foundValue variable)))), log)
              | EObj shape \<Rightarrow>
                  (case failedSummary js shape (foundValue variable) of
                     Some summary \<Rightarrow>
                       (Inl (SummaryMismatch keyPath summary (shown (foundValue variable))), log)
                   | None \<Rightarrow>
                       (case compareVariables js backend (foundReference variable) shape
                               keyPath log of
                          (Inl e, log') \<Rightarrow> (Inl e, log')
                        | (Inr _, log') \<Rightarrow> compareKeys js backend vars rest prefix log'))
              | EBool _ \<Rightarrow> (Inl Unreachable, log))))"

section \<open>Expanding configuration references: \<open>expandDbgConfig\<close> (src/extension/util.ts)\<close>

subsection \<open>Values\<close>

text \<open>
  A configuration value is a JSON value: \<open>null\<close>, a boolean, a number, a string, an array or
  an object with its properties in the order of \<open>Object.keys\<close>. The type of numbers is a
  parameter; the code only passes numbers on and calls \<open>toString()\<close> on them, so that
  function (\<open>numToString\<close>) is a parameter of the model.
\<close>

datatype 'n jsval =
  VNull
| VBool bool
| VNum 'n
| VStr string
| VArr "'n jsval list"
| VObj "(string \<times> 'n jsval) list"

fun joinWith :: "string \<Rightarrow> string list \<Rightarrow> string" where
  "joinWith sep [] = []"
| "joinWith sep [x] = x"
| "joinWith sep (x # y # ys) = x @ sep @ joinWith sep (y # ys)"

text \<open>\<open>value.toString()\<close>. An array joins its elements with commas, \<open>null\<close> elements as the
  empty text; an object is \<open>[object Object]\<close>. The code never calls it on \<open>null\<close> itself.\<close>

fun toString :: "('n \<Rightarrow> string) \<Rightarrow> 'n jsval \<Rightarrow> string" where
  "toString showNum VNull = []"
| "toString showNum (VBool b) = (if b then ''true'' else ''false'')"
| "toString showNum (VNum n) = showNum n"
| "toString showNum (VStr s) = s"
| "toString showNum (VArr xs) = joinWith '','' (map (toString showNum) xs)"
| "toString showNum (VObj props) = ''[object Object]''"

subsection \<open>The regular expression \<open>expandVarRegex\<close>\<close>

text \<open>
  \<open>/\$\{(?:([^:}]+):)?([^}]+)\}/g\<close>. At a position of the text the expression matches
  \<open>${\<close>, then, if it can, a type (one or more characters other than \<open>:\<close> and \<open>}\<close>, as many
  as there are) and a colon, then a key (one or more characters other than \<open>}\<close>, as many
  as there are) and \<open>}\<close>. When the key cannot be matched after the type, the expression
  is tried without the type. The result is the type, the key, the matched text and the
  text that follows it.
\<close>

definition matchKey :: "string \<Rightarrow> (string \<times> string) option" where
  "matchKey s =
     (let key = takeWhile (\<lambda>c. c \<noteq> CHR ''}'') s in
      case dropWhile (\<lambda>c. c \<noteq> CHR ''}'') s of
        [] \<Rightarrow> None
      | _ # rest \<Rightarrow> if key = [] then None else Some (key, rest))"

definition matchTyped :: "string \<Rightarrow> (string \<times> string \<times> string) option" where
  "matchTyped body =
     (let ty = takeWhile (\<lambda>c. c \<noteq> CHR '':'' \<and> c \<noteq> CHR ''}'') body in
      case dropWhile (\<lambda>c. c \<noteq> CHR '':'' \<and> c \<noteq> CHR ''}'') body of
        [] \<Rightarrow> None
      | c # afterColon \<Rightarrow>
          if ty = [] \<or> c \<noteq> CHR '':'' then None
          else (case matchKey afterColon of
                  None \<Rightarrow> None
                | Some (key, rest) \<Rightarrow> Some (ty, key, rest)))"

definition matchReference :: "string \<Rightarrow> (string option \<times> string \<times> string \<times> string) option" where
  "matchReference s =
     (case s of
        c1 # c2 # body \<Rightarrow>
          if c1 = CHR ''$'' \<and> c2 = CHR ''{'' then
            (case matchTyped body of
               Some (ty, key, rest) \<Rightarrow> Some (Some ty, key, ''${'' @ ty @ '':'' @ key @ ''}'', rest)
             | None \<Rightarrow>
                 (case matchKey body of
                    Some (key, rest) \<Rightarrow> Some (None, key, ''${'' @ key @ ''}'', rest)
                  | None \<Rightarrow> None))
          else None
      | _ \<Rightarrow> None)"

text \<open>A text as \<open>replace\<close> with the flag \<open>g\<close> sees it: the matches from left to right, none
  overlapping another, and the characters between them.\<close>

datatype token =
  Literal char
| Reference "string option" string string   \<comment> \<open>type, key, matched text\<close>

lemma matchKey_text:
  assumes "matchKey s = Some (key, rest)"
  shows "s = key @ ''}'' @ rest" and "key \<noteq> []"
proof -
  let ?P = "\<lambda>c. c \<noteq> CHR ''}''"
  from assms obtain c where d: "dropWhile ?P s = c # rest" and k: "key = takeWhile ?P s"
    and ne: "key \<noteq> []"
    by (auto simp: matchKey_def Let_def split: list.splits if_splits)
  have "\<not> ?P (hd (dropWhile ?P s))"
    by (rule hd_dropWhile) (simp add: d)
  then have "c = CHR ''}''"
    by (simp add: d)
  moreover have "s = takeWhile ?P s @ dropWhile ?P s"
    by simp
  ultimately show "s = key @ ''}'' @ rest"
    by (simp add: d k)
  show "key \<noteq> []" by (rule ne)
qed

lemma matchTyped_text:
  assumes "matchTyped body = Some (ty, key, rest)"
  shows "body = ty @ '':'' @ key @ ''}'' @ rest"
proof -
  let ?P = "\<lambda>c. c \<noteq> CHR '':'' \<and> c \<noteq> CHR ''}''"
  from assms obtain afterColon where d: "dropWhile ?P body = CHR '':'' # afterColon"
    and t: "ty = takeWhile ?P body" and k: "matchKey afterColon = Some (key, rest)"
    by (auto simp: matchTyped_def Let_def split: list.splits if_splits option.splits)
  have "body = takeWhile ?P body @ dropWhile ?P body"
    by simp
  then show ?thesis
    using matchKey_text(1) [OF k] by (simp add: d t)
qed

lemma matchReference_text:
  assumes "matchReference s = Some (ty, key, matched, rest)"
  shows "s = matched @ rest" and "matched \<noteq> []"
  using assms
  by (auto simp: matchReference_def split: list.splits if_splits option.splits
        dest: matchTyped_text matchKey_text(1))

function tokenize :: "string \<Rightarrow> token list" where
  "tokenize [] = []"
| "tokenize (c # cs) =
     (case matchReference (c # cs) of
        Some (ty, key, matched, rest) \<Rightarrow> Reference ty key matched # tokenize rest
      | None \<Rightarrow> Literal c # tokenize cs)"
  by pat_completeness auto
termination
proof (relation "measure length")
  show "wf (measure length)" by simp
next
  fix c cs x2 ty y key ya matched rest
  assume "matchReference (c # cs) = Some x2" "(ty, y) = x2" "(key, ya) = y" "(matched, rest) = ya"
  then have "matchReference (c # cs) = Some (ty, key, matched, rest)" by simp
  from matchReference_text [OF this] have "length rest < length (c # cs)"
    by (metis length_append length_greater_0_conv less_add_same_cancel2)
  then show "(rest, c # cs) \<in> measure length" by simp
next
  fix c cs
  show "(cs, c # cs) \<in> measure length" by simp
qed

subsection \<open>\<open>expandVariables\<close> and \<open>expandVariablesInObject\<close>\<close>

text \<open>
  The expander gets the type and the key of a match and returns the replacement, or
  \<open>null\<close> to leave the match as it is, or throws. The expander of \<open>expandDbgConfig\<close> also
  assigns to the variable \<open>converged\<close> of the enclosing function; such a state is
  threaded through the calls here (\<open>'s\<close>).
\<close>

datatype expand_error =
  CircularDependency string
    \<comment> \<open>\<open>Circular dependency detected during expansion of dbgconfig:key\<close>\<close>
| NotDefined string
    \<comment> \<open>\<open>dbgconfig:key is not defined\<close>\<close>

type_synonym 's expander =
  "string option \<Rightarrow> string \<Rightarrow> 's \<Rightarrow> expand_error + (string option \<times> 's)"

fun expandTokens :: "'s expander \<Rightarrow> token list \<Rightarrow> 's \<Rightarrow> expand_error + (string \<times> 's)" where
  "expandTokens expander [] st = Inr ([], st)"
| "expandTokens expander (Literal c # ts) st =
     (case expandTokens expander ts st of
        Inl e \<Rightarrow> Inl e
      | Inr (out, st') \<Rightarrow> Inr (c # out, st'))"
| "expandTokens expander (Reference ty key matched # ts) st =
     (case expander ty key st of
        Inl e \<Rightarrow> Inl e
      | Inr (replacement, st') \<Rightarrow>
          (case expandTokens expander ts st' of
             Inl e \<Rightarrow> Inl e
           | Inr (out, st'') \<Rightarrow>
               Inr ((case replacement of Some r \<Rightarrow> r | None \<Rightarrow> matched) @ out, st'')))"

definition expandVariables :: "'s expander \<Rightarrow> string \<Rightarrow> 's \<Rightarrow> expand_error + (string \<times> 's)" where
  "expandVariables expander str st = expandTokens expander (tokenize str) st"

fun expandVariablesInObject ::
    "'s expander \<Rightarrow> 'n jsval \<Rightarrow> 's \<Rightarrow> expand_error + ('n jsval \<times> 's)"
  and expandElements ::
    "'s expander \<Rightarrow> 'n jsval list \<Rightarrow> 's \<Rightarrow> expand_error + ('n jsval list \<times> 's)"
  and expandProperties ::
    "'s expander \<Rightarrow> (string \<times> 'n jsval) list \<Rightarrow> 's
      \<Rightarrow> expand_error + ((string \<times> 'n jsval) list \<times> 's)"
where
  "expandVariablesInObject expander (VStr str) st =
     (case expandVariables expander str st of
        Inl e \<Rightarrow> Inl e
      | Inr (str', st') \<Rightarrow> Inr (VStr str', st'))"
| "expandVariablesInObject expander VNull st = Inr (VNull, st)"
| "expandVariablesInObject expander (VBool b) st = Inr (VBool b, st)"
| "expandVariablesInObject expander (VNum n) st = Inr (VNum n, st)"
| "expandVariablesInObject expander (VArr xs) st =
     (case expandElements expander xs st of
        Inl e \<Rightarrow> Inl e
      | Inr (xs', st') \<Rightarrow> Inr (VArr xs', st'))"
| "expandVariablesInObject expander (VObj props) st =
     (case expandProperties expander props st of
        Inl e \<Rightarrow> Inl e
      | Inr (props', st') \<Rightarrow> Inr (VObj props', st'))"
| "expandElements expander [] st = Inr ([], st)"
| "expandElements expander (x # xs) st =
     (case expandVariablesInObject expander x st of
        Inl e \<Rightarrow> Inl e
      | Inr (x', st') \<Rightarrow>
          (case expandElements expander xs st' of
             Inl e \<Rightarrow> Inl e
           | Inr (xs', st'') \<Rightarrow> Inr (x' # xs', st'')))"
| "expandProperties expander [] st = Inr ([], st)"
| "expandProperties expander ((prop, v) # props) st =
     (case expandVariablesInObject expander v st of
        Inl e \<Rightarrow> Inl e
      | Inr (v', st') \<Rightarrow>
          (case expandProperties expander props st' of
             Inl e \<Rightarrow> Inl e
           | Inr (props', st'') \<Rightarrow> Inr ((prop, v') # props', st'')))"

subsection \<open>\<open>expandDbgConfig\<close>\<close>

text \<open>
  \<open>dbgconfig\<close> is the copy of the settings that the function works on, an object; its
  properties are kept in the order of \<open>Object.keys\<close>, and \<open>dbgconfig[prop] = v\<close> is
  \<open>setProp\<close>. The copy is made with \<open>Object.assign({}, ...)\<close>, so it inherits the members
  of \<open>Object.prototype\<close>. What the function uses of JavaScript is passed in: the text of
  a number (\<open>numToString\<close>), and for a key the text that \<open>toString()\<close> yields on the member
  of that name inherited from \<open>Object.prototype\<close>, if there is one that is neither \<open>null\<close>
  nor \<open>undefined\<close> (\<open>inheritedToString\<close>). The settings are taken to have no key
  \<open>__proto__\<close> of their own.
\<close>

record 'n js_text =
  numToString :: "'n \<Rightarrow> string"
  inheritedToString :: "string \<Rightarrow> string option"

fun setProp :: "string \<Rightarrow> 'v \<Rightarrow> (string \<times> 'v) list \<Rightarrow> (string \<times> 'v) list" where
  "setProp prop v [] = [(prop, v)]"
| "setProp prop v ((k, w) # rest) =
     (if k = prop then (k, v) # rest else (k, w) # setProp prop v rest)"

text \<open>\<open>dbgconfig[key]\<close>, the test \<open>value == undefined\<close> and \<open>value.toString()\<close>: the text
  of the value, or \<open>None\<close> where the code throws because the value is \<open>undefined\<close> or
  \<open>null\<close>. An own property is looked at first, then \<open>Object.prototype\<close>.\<close>

definition valueText :: "'n js_text \<Rightarrow> (string \<times> 'n jsval) list \<Rightarrow> string \<Rightarrow> string option" where
  "valueText js dbgconfig key =
     (case map_of dbgconfig key of
        None \<Rightarrow> inheritedToString js key
      | Some VNull \<Rightarrow> None
      | Some v \<Rightarrow> Some (toString (numToString js) v))"

text \<open>The expander of the fixed-point loop; its state is the variable \<open>converged\<close>.\<close>

definition dbgconfigExpander ::
    "'n js_text \<Rightarrow> (string \<times> 'n jsval) list \<Rightarrow> string \<Rightarrow> bool expander" where
  "dbgconfigExpander js dbgconfig expanding ty key converged =
     (if ty = Some ''dbgconfig'' then
        (if key = expanding then Inl (CircularDependency key)
         else (case valueText js dbgconfig key of
                 None \<Rightarrow> Inl (NotDefined key)
               | Some text \<Rightarrow> Inr (Some text, False)))
      else Inr (None, converged))"

text \<open>The \<open>for\<close> loop of one pass, over the keys that \<open>Object.keys(dbgconfig)\<close> returned
  when the pass began.\<close>

fun expandPass ::
    "'n js_text \<Rightarrow> string list \<Rightarrow> (string \<times> 'n jsval) list \<Rightarrow> bool
      \<Rightarrow> expand_error + ((string \<times> 'n jsval) list \<times> bool)" where
  "expandPass js [] dbgconfig converged = Inr (dbgconfig, converged)"
| "expandPass js (prop # props) dbgconfig converged =
     (case map_of dbgconfig prop of
        None \<Rightarrow> expandPass js props dbgconfig converged
      | Some v \<Rightarrow>
          (case expandVariablesInObject (dbgconfigExpander js dbgconfig prop) v converged of
             Inl e \<Rightarrow> Inl e
           | Inr (v', converged') \<Rightarrow>
               expandPass js props (setProp prop v' dbgconfig) converged'))"

text \<open>The \<open>do ... while (!converged)\<close> loop. Nothing bounds the number of passes, so the
  result is an option: \<open>None\<close> when the loop does not end.\<close>

partial_function (option) fixedPoint ::
    "'n js_text \<Rightarrow> (string \<times> 'n jsval) list
      \<Rightarrow> (expand_error + (string \<times> 'n jsval) list) option" where
  "fixedPoint js dbgconfig =
     (case expandPass js (map fst dbgconfig) dbgconfig True of
        Inl e \<Rightarrow> Some (Inl e)
      | Inr (dbgconfig', converged) \<Rightarrow>
          if converged then Some (Inr dbgconfig') else fixedPoint js dbgconfig')"

declare fixedPoint.simps [code]

text \<open>The expander for the launch configuration: no check of \<open>expanding\<close>, no state.\<close>

definition launchExpander ::
    "'n js_text \<Rightarrow> (string \<times> 'n jsval) list \<Rightarrow> unit expander" where
  "launchExpander js dbgconfig ty key st =
     (if ty = Some ''dbgconfig'' then
        (case valueText js dbgconfig key of
           None \<Rightarrow> Inl (NotDefined key)
         | Some text \<Rightarrow> Inr (Some text, st))
      else Inr (None, st))"

definition expandDbgConfig ::
    "'n js_text \<Rightarrow> 'n jsval \<Rightarrow> (string \<times> 'n jsval) list
      \<Rightarrow> (expand_error + 'n jsval) option" where
  "expandDbgConfig js debugConfig dbgconfigConfig =
     (case fixedPoint js dbgconfigConfig of
        None \<Rightarrow> None
      | Some (Inl e) \<Rightarrow> Some (Inl e)
      | Some (Inr dbgconfig) \<Rightarrow>
          (case expandVariablesInObject (launchExpander js dbgconfig) debugConfig () of
             Inl e \<Rightarrow> Some (Inl e)
           | Inr (debugConfig', _) \<Rightarrow> Some (Inr debugConfig')))"

subsection \<open>Notions used to state the properties of the expansion\<close>

text \<open>The keys that a text refers to with \<open>${dbgconfig:key}\<close>, and the values without any
  such reference.\<close>

fun dbgconfigKeys :: "token list \<Rightarrow> string list" where
  "dbgconfigKeys [] = []"
| "dbgconfigKeys (Literal c # ts) = dbgconfigKeys ts"
| "dbgconfigKeys (Reference ty key matched # ts) =
     (if ty = Some ''dbgconfig'' then key # dbgconfigKeys ts else dbgconfigKeys ts)"

definition references :: "string \<Rightarrow> string list" where
  "references str = dbgconfigKeys (tokenize str)"

fun fullyResolved :: "'n jsval \<Rightarrow> bool" where
  "fullyResolved (VStr str) = (references str = [])"
| "fullyResolved (VArr xs) = list_all fullyResolved xs"
| "fullyResolved (VObj props) = list_all fullyResolved (map snd props)"
| "fullyResolved _ = True"

fun tokenText :: "token \<Rightarrow> string" where
  "tokenText (Literal c) = [c]"
| "tokenText (Reference ty key matched) = matched"

text \<open>An expander that leaves every match alone whose type is not \<open>dbgconfig\<close>.\<close>

definition dbgconfigOnly :: "'s expander \<Rightarrow> bool" where
  "dbgconfigOnly expander \<longleftrightarrow>
     (\<forall>ty key st. ty \<noteq> Some ''dbgconfig'' \<longrightarrow> expander ty key st = Inr (None, st))"



text \<open>A walk from \<open>x\<close> along a relation visits the vertices of the list in turn. It is
  closed when it starts from the last vertex of the list: the last vertex is related to
  the first, and every vertex to the next.\<close>

fun walk :: "('a \<Rightarrow> 'a \<Rightarrow> bool) \<Rightarrow> 'a \<Rightarrow> 'a list \<Rightarrow> bool" where
  "walk E x [] = True"
| "walk E x (y # ys) = (E x y \<and> walk E y ys)"

definition closedWalk :: "('a \<Rightarrow> 'a \<Rightarrow> bool) \<Rightarrow> 'a list \<Rightarrow> bool" where
  "closedWalk E zs \<longleftrightarrow> zs \<noteq> [] \<and> walk E (last zs) zs"

text \<open>\<open>refersTo dbgconfig p q\<close>: the value of the key \<open>p\<close> is a string with a reference
  \<open>${dbgconfig:q}\<close>. A reference cycle is a closed walk along these references.\<close>

definition refersTo :: "(string \<times> 'n jsval) list \<Rightarrow> string \<Rightarrow> string \<Rightarrow> bool" where
  "refersTo dbgconfig p q =
     (case map_of dbgconfig p of Some (VStr str) \<Rightarrow> q \<in> set (references str) | _ \<Rightarrow> False)"

definition referenceCycle :: "(string \<times> 'n jsval) list \<Rightarrow> string list \<Rightarrow> bool" where
  "referenceCycle dbgconfig ks = closedWalk (refersTo dbgconfig) ks"



section \<open>Properties of \<open>AdapterProcess\<close>\<close>

lemma isAlive_foldl:
  "isAlive (foldl adapterStep p es) \<longleftrightarrow> isAlive p \<and> (\<forall>e \<in> set es. \<not> isExit e)"
proof (induction es arbitrary: p)
  case Nil
  show ?case by simp
next
  case (Cons e es)
  show ?case
    by (cases e) (auto simp: Cons.IH onExit_def terminate_def)
qed

text \<open>
  C8. A new \<open>AdapterProcess\<close> is alive; after any sequence of exit notifications and
  \<open>terminate\<close> calls it is alive exactly when no exit notification was among them, so the
  flag falls once, at the first exit, and stays down whatever follows; \<open>terminate\<close> calls
  \<open>kill\<close> once when the flag is up and changes nothing when it is down.
\<close>

theorem adapter_process_liveness:
  "isAlive newAdapterProcess
   \<and> (isAlive (adapterRun es) \<longleftrightarrow> (\<forall>e \<in> set es. \<not> isExit e))
   \<and> (\<not> isAlive (adapterRun es) \<longrightarrow> \<not> isAlive (adapterRun (es @ later)))
   \<and> (isAlive p \<longrightarrow> kills (terminate p) = kills p + 1 \<and> isAlive (terminate p))
   \<and> (\<not> isAlive p \<longrightarrow> terminate p = p)"
proof -
  have alive: "\<And>xs. isAlive (adapterRun xs) \<longleftrightarrow> (\<forall>e \<in> set xs. \<not> isExit e)"
    by (simp add: adapterRun_def isAlive_foldl newAdapterProcess_def)
  have "isAlive newAdapterProcess"
    by (simp add: newAdapterProcess_def)
  moreover have "\<not> isAlive (adapterRun es) \<longrightarrow> \<not> isAlive (adapterRun (es @ later))"
    by (auto simp: alive)
  moreover have "isAlive p \<longrightarrow> kills (terminate p) = kills p + 1 \<and> isAlive (terminate p)"
    by (simp add: terminate_def)
  moreover have "\<not> isAlive p \<longrightarrow> terminate p = p"
    by (simp add: terminate_def)
  ultimately show ?thesis
    using alive [of es] by blast
qed

theorem adapter_process_liveness_witness:
  "isAlive (adapterRun [CallTerminate])
   \<and> \<not> isAlive (adapterRun [CallTerminate, ProcessExit None (Some ''SIGTERM'')])
   \<and> \<not> isAlive (adapterRun ([CallTerminate, ProcessExit None (Some ''SIGTERM'')] @ [CallTerminate]))
   \<and> kills (terminate newAdapterProcess) = 1
   \<and> terminate (adapterRun [ProcessExit (Some 1) None]) = adapterRun [ProcessExit (Some 1) None]"
  using adapter_process_liveness [of "[CallTerminate]" "[]" newAdapterProcess]
    adapter_process_liveness
      [of "[CallTerminate, ProcessExit None (Some ''SIGTERM'')]" "[CallTerminate]"
          "adapterRun [ProcessExit (Some 1) None]"]
  by (simp add: adapterRun_def newAdapterProcess_def onExit_def terminate_def)

section \<open>Properties of \<open>waitForStopEvent\<close>\<close>

lemma stop_run_settled:
  "resolved w = Some e \<Longrightarrow> \<not> listening w \<Longrightarrow> foldl emitStopped w evs = w"
  by (induction evs) (simp_all add: emitStopped_def)

lemma stop_run_find:
  "listening w \<Longrightarrow> resolved w = None \<Longrightarrow>
   resolved (foldl emitStopped w evs) = find (\<lambda>e. reason e \<noteq> ''initial'') evs"
proof (induction evs arbitrary: w)
  case Nil
  then show ?case by simp
next
  case (Cons ev evs)
  show ?case
  proof (cases "reason ev = ''initial''")
    case True
    then have "listening (emitStopped w ev)" "resolved (emitStopped w ev) = None"
      using Cons.prems by (simp_all add: emitStopped_def stopHandler_def)
    then show ?thesis
      using Cons.IH True by simp
  next
    case False
    then have "resolved (emitStopped w ev) = Some ev" "\<not> listening (emitStopped w ev)"
      using Cons.prems by (simp_all add: emitStopped_def stopHandler_def)
    then show ?thesis
      using False by (simp add: stop_run_settled)
  qed
qed

text \<open>
  C7. Whatever \<open>stopped\<close> events the session emits after \<open>waitForStopEvent\<close> was called,
  the promise is resolved with the first of them whose reason is not \<open>initial\<close> (and stays
  pending when there is none); it is never resolved with an \<open>initial\<close> event, and events
  after the one that resolved it change nothing.
\<close>

theorem waitForStopEvent_skips_initial:
  "resolved (stopWaiterRun evs) = find (\<lambda>e. reason e \<noteq> ''initial'') evs
   \<and> (\<forall>e. resolved (stopWaiterRun evs) = Some e \<longrightarrow> reason e \<noteq> ''initial'' \<and> e \<in> set evs)
   \<and> (resolved (stopWaiterRun evs) \<noteq> None \<longrightarrow> stopWaiterRun (evs @ later) = stopWaiterRun evs)"
proof -
  have r: "resolved (stopWaiterRun evs) = find (\<lambda>e. reason e \<noteq> ''initial'') evs"
    by (simp add: stopWaiterRun_def waitForStopEvent_def stop_run_find)
  have l: "resolved (foldl emitStopped w xs) \<noteq> None \<Longrightarrow> resolved w = None \<Longrightarrow> listening w
           \<Longrightarrow> \<not> listening (foldl emitStopped w xs)" for w xs
  proof (induction xs arbitrary: w)
    case Nil
    then show ?case by simp
  next
    case (Cons x xs)
    show ?case
    proof (cases "reason x = ''initial''")
      case True
      then have "listening (emitStopped w x)" "resolved (emitStopped w x) = None"
        using Cons.prems by (simp_all add: emitStopped_def stopHandler_def)
      then show ?thesis using Cons.IH Cons.prems(1) by simp
    next
      case False
      then have "resolved (emitStopped w x) = Some x" "\<not> listening (emitStopped w x)"
        using Cons.prems by (simp_all add: emitStopped_def stopHandler_def)
      then show ?thesis by (simp add: stop_run_settled)
    qed
  qed
  have "\<forall>e. resolved (stopWaiterRun evs) = Some e \<longrightarrow> reason e \<noteq> ''initial'' \<and> e \<in> set evs"
    unfolding r by (auto simp: find_Some_iff)
  moreover have "resolved (stopWaiterRun evs) \<noteq> None \<longrightarrow> stopWaiterRun (evs @ later) = stopWaiterRun evs"
  proof
    assume a: "resolved (stopWaiterRun evs) \<noteq> None"
    then have "\<not> listening (stopWaiterRun evs)"
      unfolding stopWaiterRun_def by (rule l) (simp_all add: waitForStopEvent_def)
    with a show "stopWaiterRun (evs @ later) = stopWaiterRun evs"
      unfolding stopWaiterRun_def by (auto simp: stop_run_settled)
  qed
  ultimately show ?thesis using r by blast
qed

theorem waitForStopEvent_skips_initial_witness:
  "resolved (stopWaiterRun
      [\<lparr>reason = ''initial'', threadId = None\<rparr>, \<lparr>reason = ''breakpoint'', threadId = Some 1\<rparr>,
       \<lparr>reason = ''step'', threadId = Some 1\<rparr>])
     = Some \<lparr>reason = ''breakpoint'', threadId = Some 1\<rparr>
   \<and> stopWaiterRun
      ([\<lparr>reason = ''initial'', threadId = None\<rparr>, \<lparr>reason = ''breakpoint'', threadId = Some 1\<rparr>]
        @ [\<lparr>reason = ''step'', threadId = Some 1\<rparr>])
     = stopWaiterRun
      [\<lparr>reason = ''initial'', threadId = None\<rparr>, \<lparr>reason = ''breakpoint'', threadId = Some 1\<rparr>]"
proof -
  let ?i = "\<lparr>reason = ''initial'', threadId = None\<rparr>"
  let ?b = "\<lparr>reason = ''breakpoint'', threadId = Some 1\<rparr>"
  let ?s = "\<lparr>reason = ''step'', threadId = Some 1\<rparr>"
  have "resolved (stopWaiterRun [?i, ?b, ?s]) = find (\<lambda>e. reason e \<noteq> ''initial'') [?i, ?b, ?s]"
    using waitForStopEvent_skips_initial [of "[?i, ?b, ?s]" "[]"] by (rule conjunct1)
  then have a: "resolved (stopWaiterRun [?i, ?b, ?s]) = Some ?b"
    by simp
  have "resolved (stopWaiterRun [?i, ?b]) = find (\<lambda>e. reason e \<noteq> ''initial'') [?i, ?b]"
    using waitForStopEvent_skips_initial [of "[?i, ?b]" "[?s]"] by (rule conjunct1)
  then have "resolved (stopWaiterRun [?i, ?b]) \<noteq> None"
    by simp
  then have "stopWaiterRun ([?i, ?b] @ [?s]) = stopWaiterRun [?i, ?b]"
    using waitForStopEvent_skips_initial [of "[?i, ?b]" "[?s]"] by blast
  with a show ?thesis by blast
qed

section \<open>Properties of \<open>waitForPattern\<close>\<close>

lemma wait_inv_init: "wait_inv waitForPattern"
  by (simp add: wait_inv_def waitForPattern_def)

lemma wait_inv_step: "wait_inv s \<Longrightarrow> wait_inv (waitStep pattern s e)"
  by (cases e)
     (auto simp: wait_inv_def onData_def onError_def onTimer_def onProcessExit_def settle_def Let_def
           split: option.splits settled.splits)

lemma wait_inv_foldl: "wait_inv s \<Longrightarrow> wait_inv (foldl (waitStep pattern) s es)"
  by (induction es arbitrary: s) (simp_all add: wait_inv_step)

lemma wait_inv_run: "wait_inv (waitRun pattern es)"
  by (simp add: waitRun_def wait_inv_foldl wait_inv_init)

lemma waitRun_append:
  "waitRun pattern (es @ later) = foldl (waitStep pattern) (waitRun pattern es) later"
  by (simp add: waitRun_def)

lemma settled_step:
  assumes "wait_inv s" and "promise s \<noteq> Pending"
  shows "promise (waitStep pattern s e) = promise s"
    and "killCalls (waitStep pattern s e) = killCalls s"
    and "promisePending (waitStep pattern s e) = promisePending s"
    and "processOutput (waitStep pattern s e) = processOutput s"
  using assms
  by (cases e; auto simp: wait_inv_def onData_def onError_def onTimer_def onProcessExit_def
                settle_def split: settled.splits)+

lemma settled_foldl:
  assumes "wait_inv s" and "promise s \<noteq> Pending"
  shows "promise (foldl (waitStep pattern) s es) = promise s
       \<and> killCalls (foldl (waitStep pattern) s es) = killCalls s
       \<and> promisePending (foldl (waitStep pattern) s es) = promisePending s
       \<and> processOutput (foldl (waitStep pattern) s es) = processOutput s"
  using assms
proof (induction es arbitrary: s)
  case Nil
  show ?case by simp
next
  case (Cons e es)
  have "wait_inv (waitStep pattern s e)" "promise (waitStep pattern s e) \<noteq> Pending"
    using Cons.prems by (simp_all add: wait_inv_step settled_step)
  from Cons.IH [OF this] show ?case
    using Cons.prems by (simp add: settled_step)
qed

lemma settled_error_noop:
  assumes "wait_inv s" and "promise s \<noteq> Pending"
  shows "waitStep pattern s (ProcError err) = s"
  using assms by (auto simp: wait_inv_def onError_def settle_def split: settled.splits)

lemma pending_first_wins:
  assumes "wait_inv s" and "promise s = Pending"
  shows "promise (waitStep pattern s (ProcError err)) = Rejected (ProcessError err)"
    and "promise (waitStep pattern s TimerFired) =
           Rejected (StartupError ''Timeout''
             ''The debugger did not start within the allotted time.'' (processOutput s))"
    and "killCalls (waitStep pattern s TimerFired) = killCalls s + 1"
    and "promise (waitStep pattern s (Exited code signal)) =
           Rejected (StartupError ''Handshake''
             ''The debugger exited without completing startup handshake.'' (processOutput s))"
    and "killCalls (waitStep pattern s (Exited code signal)) = killCalls s"
    and "pattern (the (processOutput s) @ chunk) = Some m \<Longrightarrow>
           promise (waitStep pattern s (Data chunk)) = Resolved m"
    and "pattern (the (processOutput s) @ chunk) = None \<Longrightarrow>
           promise (waitStep pattern s (Data chunk)) = Pending"
  using assms
  by (auto simp: wait_inv_def onData_def onError_def onTimer_def onProcessExit_def
                settle_def Let_def split: settled.splits option.splits)

lemma nondata_settles:
  assumes "wait_inv s" and "\<not> isData e"
  shows "promise (waitStep pattern s e) \<noteq> Pending"
  using assms
  by (cases e; auto simp: wait_inv_def onError_def onTimer_def onProcessExit_def
                settle_def split: settled.splits)

lemma nondata_settles_foldl:
  assumes "wait_inv s" and "\<exists>e \<in> set es. \<not> isData e"
  shows "promise (foldl (waitStep pattern) s es) \<noteq> Pending"
  using assms
proof (induction es arbitrary: s)
  case Nil
  then show ?case by simp
next
  case (Cons e es)
  have inv': "wait_inv (waitStep pattern s e)"
    using Cons.prems(1) by (rule wait_inv_step)
  show ?case
  proof (cases "isData e")
    case True
    then have "\<exists>x \<in> set es. \<not> isData x" using Cons.prems(2) by auto
    with Cons.IH [OF inv'] show ?thesis by simp
  next
    case False
    then have "promise (waitStep pattern s e) \<noteq> Pending"
      using Cons.prems(1) by (simp add: nondata_settles)
    then show ?thesis
      using settled_foldl [OF inv', of pattern es] by simp
  qed
qed

text \<open>
  C3. Take any sequence of callbacks (chunks, process errors, the timer, process exit) in
  any order. Once the promise is settled, no further callback changes its outcome, calls
  \<open>kill\<close> or raises \<open>promisePending\<close> again, and the \<open>error\<close> listener in particular leaves
  the whole state as it is. While the promise is pending, the next callback that settles
  it decides the outcome for good: a process error rejects with that error, the timer with
  the \<open>Timeout\<close> error, the exit with the \<open>Handshake\<close> error, a chunk that completes a match
  resolves with the match. Every callback other than a chunk settles a pending promise.
\<close>

theorem waitForPattern_settles_once:
  "(promise (waitRun pattern es) \<noteq> Pending \<longrightarrow>
      promise (waitRun pattern (es @ later)) = promise (waitRun pattern es)
      \<and> killCalls (waitRun pattern (es @ later)) = killCalls (waitRun pattern es)
      \<and> \<not> promisePending (waitRun pattern (es @ later))
      \<and> waitStep pattern (waitRun pattern es) (ProcError err) = waitRun pattern es)
   \<and> (promise (waitRun pattern es) = Pending \<longrightarrow>
      promise (waitRun pattern (es @ ProcError err # later)) = Rejected (ProcessError err)
      \<and> promise (waitRun pattern (es @ TimerFired # later)) =
          Rejected (StartupError ''Timeout''
            ''The debugger did not start within the allotted time.''
            (processOutput (waitRun pattern es)))
      \<and> promise (waitRun pattern (es @ Exited code signal # later)) =
          Rejected (StartupError ''Handshake''
            ''The debugger exited without completing startup handshake.''
            (processOutput (waitRun pattern es)))
      \<and> (\<exists>acc. processOutput (waitRun pattern es) = Some acc
            \<and> (\<forall>m. pattern (acc @ chunk) = Some m \<longrightarrow>
                  promise (waitRun pattern (es @ Data chunk # later)) = Resolved m)))
   \<and> ((\<exists>e \<in> set es. \<not> isData e) \<longrightarrow> promise (waitRun pattern es) \<noteq> Pending)"
proof -
  let ?s = "waitRun pattern es"
  have inv: "wait_inv ?s" by (rule wait_inv_run)
  have step: "waitRun pattern (es @ e # later) = foldl (waitStep pattern) (waitStep pattern ?s e) later"
    for e by (simp add: waitRun_def)
  have first: "promise (waitStep pattern ?s e) \<noteq> Pending \<Longrightarrow>
      promise (waitRun pattern (es @ e # later)) = promise (waitStep pattern ?s e)" for e
    unfolding step using settled_foldl [OF wait_inv_step [OF inv]] by blast
  have a: "promise ?s \<noteq> Pending \<longrightarrow>
      promise (waitRun pattern (es @ later)) = promise ?s
      \<and> killCalls (waitRun pattern (es @ later)) = killCalls ?s
      \<and> \<not> promisePending (waitRun pattern (es @ later))
      \<and> waitStep pattern ?s (ProcError err) = ?s"
  proof
    assume p: "promise ?s \<noteq> Pending"
    then have "\<not> promisePending ?s"
      using inv by (simp add: wait_inv_def)
    then show "promise (waitRun pattern (es @ later)) = promise ?s
      \<and> killCalls (waitRun pattern (es @ later)) = killCalls ?s
      \<and> \<not> promisePending (waitRun pattern (es @ later))
      \<and> waitStep pattern ?s (ProcError err) = ?s"
      using settled_foldl [OF inv p, of pattern later] settled_error_noop [OF inv p]
      by (simp add: waitRun_append)
  qed
  have b: "promise ?s = Pending \<longrightarrow>
      promise (waitRun pattern (es @ ProcError err # later)) = Rejected (ProcessError err)
      \<and> promise (waitRun pattern (es @ TimerFired # later)) =
          Rejected (StartupError ''Timeout''
            ''The debugger did not start within the allotted time.'' (processOutput ?s))
      \<and> promise (waitRun pattern (es @ Exited code signal # later)) =
          Rejected (StartupError ''Handshake''
            ''The debugger exited without completing startup handshake.'' (processOutput ?s))
      \<and> (\<exists>acc. processOutput ?s = Some acc
            \<and> (\<forall>m. pattern (acc @ chunk) = Some m \<longrightarrow>
                  promise (waitRun pattern (es @ Data chunk # later)) = Resolved m))"
  proof
    assume p: "promise ?s = Pending"
    note w = pending_first_wins [OF inv p]
    show "promise (waitRun pattern (es @ ProcError err # later)) = Rejected (ProcessError err)
      \<and> promise (waitRun pattern (es @ TimerFired # later)) =
          Rejected (StartupError ''Timeout''
            ''The debugger did not start within the allotted time.'' (processOutput ?s))
      \<and> promise (waitRun pattern (es @ Exited code signal # later)) =
          Rejected (StartupError ''Handshake''
            ''The debugger exited without completing startup handshake.'' (processOutput ?s))
      \<and> (\<exists>acc. processOutput ?s = Some acc
            \<and> (\<forall>m. pattern (acc @ chunk) = Some m \<longrightarrow>
                  promise (waitRun pattern (es @ Data chunk # later)) = Resolved m))"
      using first [of "ProcError err"] first [of TimerFired] first [of "Exited code signal"]
        first [of "Data chunk"] w(1) [of pattern err] w(2) [of pattern]
        w(4) [of pattern code signal] w(6) [of pattern chunk] inv p
      by (auto simp: wait_inv_def)
  qed
  have c: "(\<exists>e \<in> set es. \<not> isData e) \<longrightarrow> promise ?s \<noteq> Pending"
    unfolding waitRun_def using nondata_settles_foldl [OF wait_inv_init] by blast
  from a b c show ?thesis by blast
qed

lemma data_nomatch:
  assumes "promisePending s" and "processOutput s = Some acc"
    and "\<forall>k. 0 < k \<and> k \<le> length chunks \<longrightarrow> pattern (acc @ concat (take k chunks)) = None"
  shows "foldl (waitStep pattern) s (map Data chunks) = s\<lparr>processOutput := Some (acc @ concat chunks)\<rparr>"
  using assms
proof (induction chunks arbitrary: s acc)
  case Nil
  then show ?case by simp
next
  case (Cons c cs)
  let ?s' = "s\<lparr>processOutput := Some (acc @ c)\<rparr>"
  have "pattern (acc @ concat (take 1 (c # cs))) = None"
    using Cons.prems(3) by (metis One_nat_def le_add1 length_Cons less_numeral_extra(1) plus_1_eq_Suc)
  then have one: "pattern (acc @ c) = None" by simp
  then have step: "waitStep pattern s (Data c) = ?s'"
    using Cons.prems(1,2) by (simp add: onData_def)
  have rest: "\<forall>k. 0 < k \<and> k \<le> length cs \<longrightarrow> pattern ((acc @ c) @ concat (take k cs)) = None"
  proof (intro allI impI)
    fix k assume "0 < k \<and> k \<le> length cs"
    then have "pattern (acc @ concat (take (Suc k) (c # cs))) = None"
      using Cons.prems(3) by (metis Suc_le_mono length_Cons zero_less_Suc)
    then show "pattern ((acc @ c) @ concat (take k cs)) = None" by simp
  qed
  have "foldl (waitStep pattern) ?s' (map Data cs) = ?s'\<lparr>processOutput := Some ((acc @ c) @ concat cs)\<rparr>"
    using Cons.prems(1) rest by (intro Cons.IH) simp_all
  then show ?case
    using step by simp
qed

lemma data_settled_foldl:
  "\<not> promisePending s \<Longrightarrow> foldl (waitStep pattern) s (map Data chunks) = s"
  by (induction chunks) (simp_all add: onData_def)

lemma data_match:
  assumes "promisePending s" and "processOutput s = Some acc" and "promise s = Pending"
    and "0 < n" and "n \<le> length chunks" and "pattern (acc @ concat (take n chunks)) \<noteq> None"
  shows "\<exists>k m. 0 < k \<and> k \<le> n
           \<and> pattern (acc @ concat (take k chunks)) = Some m
           \<and> (\<forall>j. 0 < j \<and> j < k \<longrightarrow> pattern (acc @ concat (take j chunks)) = None)
           \<and> foldl (waitStep pattern) s (map Data chunks)
               = s\<lparr>timerArmed := False, processOutput := None, promisePending := False,
                   promise := Resolved m\<rparr>"
  using assms
proof (induction chunks arbitrary: s acc n)
  case Nil
  then show ?case by simp
next
  case (Cons c cs)
  show ?case
  proof (cases "pattern (acc @ c)")
    case (Some m)
    let ?t = "s\<lparr>timerArmed := False, processOutput := None, promisePending := False,
                 promise := Resolved m\<rparr>"
    have "waitStep pattern s (Data c) = ?t"
      using Cons.prems(1,2,3) Some by (simp add: onData_def settle_def)
    then have "foldl (waitStep pattern) s (map Data (c # cs)) = ?t"
      by (simp add: data_settled_foldl)
    moreover have "pattern (acc @ concat (take 1 (c # cs))) = Some m"
      using Some by simp
    moreover have "\<forall>j. 0 < j \<and> j < (1::nat) \<longrightarrow> pattern (acc @ concat (take j (c # cs))) = None"
      by simp
    moreover have "(0::nat) < 1 \<and> 1 \<le> n"
      using Cons.prems(4) by simp
    ultimately show ?thesis by blast
  next
    case None
    let ?s' = "s\<lparr>processOutput := Some (acc @ c)\<rparr>"
    have step: "waitStep pattern s (Data c) = ?s'"
      using Cons.prems(1,2) None by (simp add: onData_def)
    have "n \<noteq> 1"
      using Cons.prems(6) None by auto
    then obtain n' where n': "n = Suc n'" "0 < n'"
      using Cons.prems(4) by (cases n) auto
    have "pattern ((acc @ c) @ concat (take n' cs)) \<noteq> None"
      using Cons.prems(6) n' by simp
    moreover have "n' \<le> length cs"
      using Cons.prems(5) n' by simp
    ultimately obtain k m where k: "0 < k" "k \<le> n'"
        "pattern ((acc @ c) @ concat (take k cs)) = Some m"
        "\<forall>j. 0 < j \<and> j < k \<longrightarrow> pattern ((acc @ c) @ concat (take j cs)) = None"
        "foldl (waitStep pattern) ?s' (map Data cs)
           = ?s'\<lparr>timerArmed := False, processOutput := None, promisePending := False,
                 promise := Resolved m\<rparr>"
      using Cons.IH [of ?s' "acc @ c" n'] Cons.prems(1,3) n'(2) by auto
    have "\<forall>j. 0 < j \<and> j < Suc k \<longrightarrow> pattern (acc @ concat (take j (c # cs))) = None"
    proof (intro allI impI)
      fix j assume j: "0 < j \<and> j < Suc k"
      show "pattern (acc @ concat (take j (c # cs))) = None"
      proof (cases j)
        case 0
        with j show ?thesis by simp
      next
        case (Suc i)
        show ?thesis
        proof (cases "i = 0")
          case True
          with Suc None show ?thesis by simp
        next
          case False
          with j Suc k(4) have "pattern ((acc @ c) @ concat (take i cs)) = None" by simp
          with Suc show ?thesis by simp
        qed
      qed
    qed
    moreover have "pattern (acc @ concat (take (Suc k) (c # cs))) = Some m"
      using k(3) by simp
    moreover have "foldl (waitStep pattern) s (map Data (c # cs))
           = s\<lparr>timerArmed := False, processOutput := None, promisePending := False,
                 promise := Resolved m\<rparr>"
      using step k(5) by simp
    moreover have "0 < Suc k \<and> Suc k \<le> n"
      using k(2) n'(1) by simp
    ultimately show ?thesis by blast
  qed
qed

lemma lit_no_terminator:
  "c \<in> set ''Listening on port '' \<Longrightarrow> \<not> isLineTerminator c"
  by (auto simp: isLineTerminator_def)

lemma digit_no_terminator: "isDigit c \<Longrightarrow> \<not> isLineTerminator c"
  by (auto simp: isDigit_def isLineTerminator_def)

lemma stripPrefix_Some: "stripPrefix l s = Some r \<longleftrightarrow> s = l @ r"
  by (induction l s rule: stripPrefix.induct) auto

lemma stripPrefix_grows:
  "stripPrefix l p = None \<Longrightarrow> stripPrefix l (p @ q) = Some r \<Longrightarrow> set p \<subseteq> set l"
  by (induction l p rule: stripPrefix.induct) (auto split: if_splits)

lemma dropWhile_Cons_append:
  assumes "dropWhile P xs = y # ys"
  shows "takeWhile P (xs @ q) = takeWhile P xs" and "dropWhile P (xs @ q) = y # ys @ q"
proof -
  from assms have "dropWhile P xs \<noteq> []" by simp
  then obtain x where x: "x \<in> set xs" "\<not> P x"
    unfolding dropWhile_eq_Nil_conv by blast
  show "takeWhile P (xs @ q) = takeWhile P xs"
    using x by (rule takeWhile_append1)
  have "dropWhile P (xs @ q) = dropWhile P xs @ q"
    using x by (rule dropWhile_append1)
  with assms show "dropWhile P (xs @ q) = y # ys @ q" by simp
qed

lemma matchHere_append:
  assumes "matchHere p = Some m"
  shows "matchHere (p @ q) = Some m"
proof -
  from assms obtain rest where rest: "stripPrefix ''Listening on port '' p = Some rest"
    by (auto simp: matchHere_def split: option.splits)
  then have rest': "stripPrefix ''Listening on port '' (p @ q) = Some (rest @ q)"
    unfolding stripPrefix_Some by simp
  from assms obtain d ds where d: "dropWhile isDigit rest = d # ds"
    unfolding matchHere_def Let_def rest
    by (cases "dropWhile isDigit rest") (auto simp del: dropWhile_eq_Nil_conv split: if_splits)
  note app = dropWhile_Cons_append [OF d, of q]
  have "matchHere (p @ q) = matchHere p"
    by (simp add: matchHere_def Let_def rest rest' app d)
  with assms show ?thesis by simp
qed

lemma matchHere_grows:
  assumes "matchHere p = None" and "matchHere (p @ q) = Some m"
  shows "\<forall>c \<in> set p. \<not> isLineTerminator c"
proof (cases "stripPrefix ''Listening on port '' p")
  case None
  from assms(2) obtain r where "stripPrefix ''Listening on port '' (p @ q) = Some r"
    by (auto simp: matchHere_def split: option.splits)
  with None have "set p \<subseteq> set ''Listening on port ''"
    by (rule stripPrefix_grows)
  then show ?thesis
    using lit_no_terminator by blast
next
  case (Some rest)
  then have p: "p = ''Listening on port '' @ rest"
    by (simp only: stripPrefix_Some)
  have rest': "stripPrefix ''Listening on port '' (p @ q) = Some (rest @ q)"
    using Some unfolding stripPrefix_Some by simp
  have "dropWhile isDigit rest = []"
  proof (cases "dropWhile isDigit rest")
    case Nil
    then show ?thesis .
  next
    case (Cons d ds)
    note app = dropWhile_Cons_append [OF Cons, of q]
    have "matchHere (p @ q) = matchHere p"
      by (simp add: matchHere_def Let_def Some rest' app Cons)
    with assms show ?thesis by simp
  qed
  then have "\<forall>x \<in> set rest. isDigit x"
    by (simp only: dropWhile_eq_Nil_conv)
  then have "\<forall>c \<in> set rest. \<not> isLineTerminator c"
    using digit_no_terminator by blast
  then show ?thesis
    unfolding p using lit_no_terminator by (metis Un_iff set_append)
qed

lemma scanLines_no_line_start:
  "\<forall>c \<in> set cs. \<not> isLineTerminator c \<Longrightarrow> scanLines False cs = None"
  by (induction cs) simp_all

lemma scanLines_append:
  "scanLines b p = Some m \<Longrightarrow> scanLines b (p @ q) = Some m"
proof (induction p arbitrary: b)
  case Nil
  then show ?case by simp
next
  case (Cons c cs)
  show ?case
  proof (cases "b \<and> matchHere (c # cs) \<noteq> None")
    case True
    then have "matchHere (c # cs) = Some m"
      using Cons.prems by auto
    then have "matchHere ((c # cs) @ q) = Some m"
      by (rule matchHere_append)
    then show ?thesis
      using True by simp
  next
    case False
    then have tail: "scanLines (isLineTerminator c) cs = Some m"
      using Cons.prems by (auto split: option.splits if_splits)
    then have IH: "scanLines (isLineTerminator c) (cs @ q) = Some m"
      by (rule Cons.IH)
    show ?thesis
    proof (cases "b \<and> matchHere ((c # cs) @ q) \<noteq> None")
      case True
      then obtain m' where m': "matchHere ((c # cs) @ q) = Some m'" by auto
      have none: "matchHere (c # cs) = None"
        using False True by simp
      have "\<forall>x \<in> set (c # cs). \<not> isLineTerminator x"
        using none m' by (rule matchHere_grows)
      then have "scanLines (isLineTerminator c) cs = None"
        by (simp add: scanLines_no_line_start)
      with tail show ?thesis by simp
    next
      case False
      then show ?thesis
        using IH by (auto split: option.splits)
    qed
  qed
qed

lemma handshakePattern_append:
  "handshakePattern p = Some m \<Longrightarrow> handshakePattern (p @ q) = Some m"
  unfolding handshakePattern_def by (rule scanLines_append)

lemma waitRun_data_later:
  "\<not> promisePending (waitRun pattern (map Data chunks)) \<Longrightarrow>
   waitRun pattern (map Data (chunks @ later)) = waitRun pattern (map Data chunks)"
  by (simp add: waitRun_def data_settled_foldl)

lemma waitRun_first_match:
  assumes "chunks \<noteq> []" and "pattern (concat chunks) \<noteq> None"
  shows "\<exists>k m. 0 < k \<and> k \<le> length chunks
           \<and> pattern (concat (take k chunks)) = Some m
           \<and> (\<forall>j. 0 < j \<and> j < k \<longrightarrow> pattern (concat (take j chunks)) = None)
           \<and> waitRun pattern (map Data (chunks @ later))
               = \<lparr>promisePending = False, processOutput = None, timerArmed = False,
                  promise = Resolved m, killCalls = 0\<rparr>"
proof -
  have "promisePending (waitForPattern :: 'a wait_state)"
    "processOutput (waitForPattern :: 'a wait_state) = Some []"
    "promise (waitForPattern :: 'a wait_state) = Pending"
    by (simp_all add: waitForPattern_def)
  moreover have "0 < length chunks" "length chunks \<le> length chunks"
    "pattern ([] @ concat (take (length chunks) chunks)) \<noteq> None"
    using assms by simp_all
  ultimately obtain k m where k: "0 < k" "k \<le> length chunks"
      "pattern ([] @ concat (take k chunks)) = Some m"
      "\<forall>j. 0 < j \<and> j < k \<longrightarrow> pattern ([] @ concat (take j chunks)) = None"
      "foldl (waitStep pattern) waitForPattern (map Data chunks)
         = waitForPattern\<lparr>timerArmed := False, processOutput := None, promisePending := False,
             promise := Resolved m\<rparr>"
    using data_match [of waitForPattern "[]" "length chunks" chunks pattern] by blast
  have run: "waitRun pattern (map Data chunks)
      = \<lparr>promisePending = False, processOutput = None, timerArmed = False,
          promise = Resolved m, killCalls = 0\<rparr>"
    unfolding waitRun_def k(5) by (simp add: waitForPattern_def)
  then have "waitRun pattern (map Data (chunks @ later)) = waitRun pattern (map Data chunks)"
    by (intro waitRun_data_later) simp
  with run k(1-4) show ?thesis by auto
qed

lemma waitRun_handshake:
  assumes "handshakePattern (concat chunks) = Some g"
  shows "waitRun handshakePattern (map Data (chunks @ later))
           = \<lparr>promisePending = False, processOutput = None, timerArmed = False,
              promise = Resolved g, killCalls = 0\<rparr>"
proof -
  have "handshakePattern [] = None"
    by (simp add: handshakePattern_def)
  with assms have ne: "chunks \<noteq> []" by auto
  from assms have "handshakePattern (concat chunks) \<noteq> None" by simp
  with ne obtain k m where k: "handshakePattern (concat (take k chunks)) = Some m"
    "waitRun handshakePattern (map Data (chunks @ later))
       = \<lparr>promisePending = False, processOutput = None, timerArmed = False,
          promise = Resolved m, killCalls = 0\<rparr>"
    using waitRun_first_match [of chunks handshakePattern later] by blast
  have "handshakePattern (concat (take k chunks) @ concat (drop k chunks)) = Some m"
    using k(1) by (rule handshakePattern_append)
  then have "handshakePattern (concat chunks) = Some m"
    by (metis append_take_drop_id concat_append)
  with assms have "m = g" by simp
  with k(2) show ?thesis by simp
qed

lemma handshake_example:
  "handshakePattern (''Listening on port 4711'' @ [CHR 0x0A])
     = Some [''Listening on port 4711'' @ [CHR 0x0A], ''4711'']"
  by (simp add: handshakePattern_def matchHere_def isDigit_def isSpace_def)

text \<open>
  C5. Chunks only. If the accumulated text matches after the last chunk, it matched for the
  first time after some chunk \<open>k\<close>; the promise is resolved with the match on the text
  accumulated up to chunk \<open>k\<close>, the buffer is set to \<open>null\<close>, the timer is cleared, and the
  chunks that follow are not looked at. For the pattern of \<open>startDebugAdapter\<close> that match
  is the match on the whole output, however the output is cut into chunks; so every way
  of cutting \<open>Listening on port 4711\<close> and a line feed resolves with the group \<open>4711\<close>.
\<close>

theorem waitForPattern_resolves_first_match:
  "(chunks \<noteq> [] \<and> pattern (concat chunks) \<noteq> None \<longrightarrow>
      (\<exists>k m. 0 < k \<and> k \<le> length chunks
         \<and> pattern (concat (take k chunks)) = Some m
         \<and> (\<forall>j. 0 < j \<and> j < k \<longrightarrow> pattern (concat (take j chunks)) = None)
         \<and> waitRun pattern (map Data (chunks @ later))
             = \<lparr>promisePending = False, processOutput = None, timerArmed = False,
                promise = Resolved m, killCalls = 0\<rparr>))
   \<and> (handshakePattern (concat chunks) = Some g \<longrightarrow>
        waitRun handshakePattern (map Data (chunks @ later))
          = \<lparr>promisePending = False, processOutput = None, timerArmed = False,
             promise = Resolved g, killCalls = 0\<rparr>)
   \<and> (concat chunks = ''Listening on port 4711'' @ [CHR 0x0A] \<longrightarrow>
        promise (waitRun handshakePattern (map Data chunks))
          = Resolved [''Listening on port 4711'' @ [CHR 0x0A], ''4711''])"
proof -
  have "concat chunks = ''Listening on port 4711'' @ [CHR 0x0A] \<longrightarrow>
        promise (waitRun handshakePattern (map Data chunks))
          = Resolved [''Listening on port 4711'' @ [CHR 0x0A], ''4711'']"
  proof
    assume "concat chunks = ''Listening on port 4711'' @ [CHR 0x0A]"
    then have "handshakePattern (concat chunks)
        = Some [''Listening on port 4711'' @ [CHR 0x0A], ''4711'']"
      by (simp only: handshake_example)
    from waitRun_handshake [OF this, of "[]"]
    show "promise (waitRun handshakePattern (map Data chunks))
          = Resolved [''Listening on port 4711'' @ [CHR 0x0A], ''4711'']"
      by simp
  qed
  then show ?thesis
    using waitRun_first_match [of chunks pattern later] waitRun_handshake [of chunks g later]
    by blast
qed

theorem waitForPattern_resolves_first_match_witness:
  "waitRun handshakePattern
     (map Data ([''Listening on po'', ''rt 47'', ''11'' @ [CHR 0x0A] @ ''more''] @ [''Listening on port 5 '']))
    = \<lparr>promisePending = False, processOutput = None, timerArmed = False,
       promise = Resolved [''Listening on port 4711'' @ [CHR 0x0A], ''4711''], killCalls = 0\<rparr>"
proof -
  have "handshakePattern (concat [''Listening on po'', ''rt 47'', ''11'' @ [CHR 0x0A] @ ''more''])
      = Some [''Listening on port 4711'' @ [CHR 0x0A], ''4711'']"
    by (simp add: handshakePattern_def matchHere_def isDigit_def isSpace_def)
  then show ?thesis
    using waitForPattern_resolves_first_match
      [of "[''Listening on po'', ''rt 47'', ''11'' @ [CHR 0x0A] @ ''more'']" handshakePattern
          "[''Listening on port 5 '']" "[''Listening on port 4711'' @ [CHR 0x0A], ''4711'']"]
    by blast
qed

text \<open>
  C6. Chunks that never complete a match leave the promise pending. If the timer fires
  then, the process is killed once and the promise is rejected with the error of code
  \<open>Timeout\<close>; if the process exits then, nothing is killed and the promise is rejected with
  the error of code \<open>Handshake\<close>. Both errors carry the output accumulated so far.
\<close>

theorem waitForPattern_timeout_and_exit:
  assumes "\<forall>k. 0 < k \<and> k \<le> length chunks \<longrightarrow> pattern (concat (take k chunks)) = None"
  shows "promise (waitRun pattern (map Data chunks)) = Pending
     \<and> promise (waitRun pattern (map Data chunks @ [TimerFired]))
         = Rejected (StartupError ''Timeout''
             ''The debugger did not start within the allotted time.'' (Some (concat chunks)))
     \<and> killCalls (waitRun pattern (map Data chunks @ [TimerFired])) = 1
     \<and> promise (waitRun pattern (map Data chunks @ [Exited code signal]))
         = Rejected (StartupError ''Handshake''
             ''The debugger exited without completing startup handshake.'' (Some (concat chunks)))
     \<and> killCalls (waitRun pattern (map Data chunks @ [Exited code signal])) = 0"
proof -
  have "foldl (waitStep pattern) waitForPattern (map Data chunks)
      = waitForPattern\<lparr>processOutput := Some ([] @ concat chunks)\<rparr>"
    using assms by (intro data_nomatch) (simp_all add: waitForPattern_def)
  then have run: "waitRun pattern (map Data chunks)
      = \<lparr>promisePending = True, processOutput = Some (concat chunks), timerArmed = True,
          promise = Pending, killCalls = 0\<rparr>"
    by (simp add: waitRun_def waitForPattern_def)
  show ?thesis
    unfolding waitRun_append run
    by (simp add: onTimer_def onProcessExit_def settle_def)
qed

theorem waitForPattern_timeout_and_exit_witness:
  "promise (waitRun handshakePattern (map Data [''Listening on port 47''] @ [TimerFired]))
     = Rejected (StartupError ''Timeout''
         ''The debugger did not start within the allotted time.'' (Some ''Listening on port 47''))
   \<and> killCalls (waitRun handshakePattern (map Data [''Listening on port 47''] @ [TimerFired])) = 1
   \<and> promise (waitRun handshakePattern (map Data [''Listening on port 47''] @ [Exited (Some 1) None]))
     = Rejected (StartupError ''Handshake''
         ''The debugger exited without completing startup handshake.''
         (Some ''Listening on port 47''))"
proof -
  have none: "handshakePattern ''Listening on port 47'' = None"
    by (simp add: handshakePattern_def matchHere_def isDigit_def isSpace_def isLineTerminator_def)
  have "\<forall>k. 0 < k \<and> k \<le> length [''Listening on port 47''] \<longrightarrow>
          handshakePattern (concat (take k [''Listening on port 47''])) = None"
  proof (intro allI impI)
    fix k :: nat assume "0 < k \<and> k \<le> length [''Listening on port 47'']"
    then have "k = 1" by simp
    then show "handshakePattern (concat (take k [''Listening on port 47''])) = None"
      using none by simp
  qed
  from waitForPattern_timeout_and_exit [OF this, of "Some 1" None]
  show ?thesis by simp
qed

theorem waitForPattern_settles_once_witness:
  "promise (waitRun handshakePattern
       ([Data ''abc'', TimerFired] @ [ProcError ''boom'', Exited None None, Data ''Listening on port 1 '']))
     = Rejected (StartupError ''Timeout''
         ''The debugger did not start within the allotted time.'' (Some ''abc''))
   \<and> killCalls (waitRun handshakePattern
       ([Data ''abc'', TimerFired] @ [ProcError ''boom'', Exited None None, Data ''Listening on port 1 ''])) = 1
   \<and> promise (waitRun handshakePattern ([Data ''abc''] @ ProcError ''boom'' # [TimerFired]))
     = Rejected (ProcessError ''boom'')"
proof -
  have abc: "handshakePattern ''abc'' = None"
    by (simp add: handshakePattern_def matchHere_def isLineTerminator_def)
  have s1: "waitRun handshakePattern [Data ''abc'', TimerFired]
      = \<lparr>promisePending = False, processOutput = Some ''abc'', timerArmed = False,
          promise = Rejected (StartupError ''Timeout''
            ''The debugger did not start within the allotted time.'' (Some ''abc'')),
          killCalls = 1\<rparr>"
    by (simp add: waitRun_def waitForPattern_def onData_def onTimer_def settle_def abc)
  have s2: "promise (waitRun handshakePattern [Data ''abc'']) = Pending"
    by (simp add: waitRun_def waitForPattern_def onData_def abc)
  have n: "\<exists>e \<in> set [Data ''abc'', TimerFired]. \<not> isData e"
    by simp
  show ?thesis
    using s1 s2 n
      waitForPattern_settles_once [of handshakePattern "[Data ''abc'', TimerFired]"
        "[ProcError ''boom'', Exited None None, Data ''Listening on port 1 '']" "''boom''" None None "[]"]
      waitForPattern_settles_once [of handshakePattern "[Data ''abc'']" "[TimerFired]" "''boom''" None None "[]"]
    by simp
qed

section \<open>Properties of \<open>launch\<close> and \<open>attach\<close>\<close>

lemma find_snoc:
  "find P (xs @ [x]) = (case find P xs of None \<Rightarrow> (if P x then Some x else None) | Some y \<Rightarrow> Some y)"
  by (induction xs) auto

lemma launchRun_snoc:
  "launchRun start (msgs @ [m]) = launchStep start (launchRun start msgs) m"
  by (simp add: launchRun_def)

lemma launchRun_state:
  "pc (launchRun start msgs) =
     (case find isInitializeResponse msgs of
        None \<Rightarrow> AwaitInitializeResponse
      | Some r \<Rightarrow>
          if r = InitializeResponse True
          then (if InitializedEvent \<in> set msgs then Returned else AwaitInitialized)
          else Thrown)
   \<and> sent (launchRun start msgs) =
     (if find isInitializeResponse msgs = Some (InitializeResponse True)
      then (if InitializedEvent \<in> set msgs then [Initialize, start, ConfigurationDone]
            else [Initialize, start])
      else [Initialize])
   \<and> initializedSeen (launchRun start msgs) = (InitializedEvent \<in> set msgs)"
proof (induction msgs rule: rev_induct)
  case Nil
  show ?case by (simp add: launchRun_def launchStart_def)
next
  case (snoc m msgs)
  show ?case
  proof (cases m)
    case (InitializeResponse ok)
    then show ?thesis
      using snoc.IH
      by (cases "find isInitializeResponse msgs"; cases ok)
         (auto simp: launchRun_snoc find_snoc afterInitializeResponse_def afterInitialized_def
            Let_def)
  next
    case InitializedEvent
    then show ?thesis
      using snoc.IH
      by (cases "find isInitializeResponse msgs")
         (auto simp: launchRun_snoc find_snoc afterInitialized_def Let_def)
  next
    case (StartResponse ok)
    then show ?thesis
      using snoc.IH
      by (cases "find isInitializeResponse msgs") (auto simp: launchRun_snoc find_snoc)
  qed
qed

text \<open>
  C4 (as amended). What \<open>launch\<close> and \<open>attach\<close> have written to the channel after any sequence
  of incoming messages depends only on the \<open>initialize\<close> response and the \<open>initialized\<close>
  event: \<open>initialize\<close> alone until the \<open>initialize\<close> response has arrived with success, then
  also \<open>launch\<close> (or \<open>attach\<close>), and \<open>configurationDone\<close> as the third and last request
  exactly when the \<open>initialized\<close> event has arrived as well. The response to \<open>launch\<close> or
  \<open>attach\<close> plays no part.
\<close>

theorem launch_sends_configurationDone_after_initialized:
  "sent (launchRun start msgs) =
     (if find isInitializeResponse msgs = Some (InitializeResponse True)
      then (if InitializedEvent \<in> set msgs then [Initialize, start, ConfigurationDone]
            else [Initialize, start])
      else [Initialize])
   \<and> (ConfigurationDone \<in> set (sent (launch msgs)) \<longleftrightarrow>
        find isInitializeResponse msgs = Some (InitializeResponse True)
        \<and> InitializedEvent \<in> set msgs)
   \<and> (ConfigurationDone \<in> set (sent (attach msgs)) \<longleftrightarrow>
        find isInitializeResponse msgs = Some (InitializeResponse True)
        \<and> InitializedEvent \<in> set msgs)
   \<and> (ConfigurationDone \<in> set (sent (launch msgs)) \<longrightarrow>
        sent (launch msgs) = [Initialize, Launch, ConfigurationDone])
   \<and> (ConfigurationDone \<in> set (sent (attach msgs)) \<longrightarrow>
        sent (attach msgs) = [Initialize, Attach, ConfigurationDone])"
  using launchRun_state [of start msgs] launchRun_state [of Launch msgs]
    launchRun_state [of Attach msgs]
  by (simp add: launch_def attach_def)

theorem launch_sends_configurationDone_after_initialized_witness:
  "sent (launch [InitializeResponse True, InitializedEvent])
     = [Initialize, Launch, ConfigurationDone]
   \<and> sent (attach [InitializedEvent, InitializeResponse True, StartResponse True])
     = [Initialize, Attach, ConfigurationDone]"
proof -
  have "ConfigurationDone \<in> set (sent (launch [InitializeResponse True, InitializedEvent]))"
    using launch_sends_configurationDone_after_initialized
      [of Launch "[InitializeResponse True, InitializedEvent]"]
    by simp
  then have a: "sent (launch [InitializeResponse True, InitializedEvent])
     = [Initialize, Launch, ConfigurationDone]"
    using launch_sends_configurationDone_after_initialized
      [of Launch "[InitializeResponse True, InitializedEvent]"]
    by blast
  have "ConfigurationDone
      \<in> set (sent (attach [InitializedEvent, InitializeResponse True, StartResponse True]))"
    using launch_sends_configurationDone_after_initialized
      [of Attach "[InitializedEvent, InitializeResponse True, StartResponse True]"]
    by simp
  then have "sent (attach [InitializedEvent, InitializeResponse True, StartResponse True])
     = [Initialize, Attach, ConfigurationDone]"
    using launch_sends_configurationDone_after_initialized
      [of Attach "[InitializedEvent, InitializeResponse True, StartResponse True]"]
    by blast
  with a show ?thesis by blast
qed

text \<open>
  The claim C4 as it was stated fails: after the \<open>initialize\<close> response and the
  \<open>initialized\<close> event, \<open>configurationDone\<close> is sent although the response to \<open>launch\<close>
  has not arrived; and \<open>launch\<close> is sent before the \<open>initialized\<close> event has arrived.
\<close>

theorem launch_does_not_await_response_counterexample:
  "sent (launch [InitializeResponse True, InitializedEvent])
     = [Initialize, Launch, ConfigurationDone]
   \<and> startResponse (launch [InitializeResponse True, InitializedEvent]) = None
   \<and> sent (launch [InitializeResponse True]) = [Initialize, Launch]
   \<and> initializedSeen (launch [InitializeResponse True]) = False"
  by (simp add: launch_def launchRun_def launchStart_def afterInitializeResponse_def
       afterInitialized_def)

section \<open>Properties of \<open>compareVariables\<close>\<close>







text \<open>
  C10. With the reference 0, \<open>compareVariables\<close> fails with \<open>Expected non-zero.\<close> whatever
  the expected shape is, and the log of requests is as it was: nothing was asked of the
  back end. In particular an expected object for a node whose own reference is 0 fails
  this way, so the children of a node that is not expandable are never compared.
\<close>

theorem compareVariables_rejects_zero:
  "compareVariables js backend (Some 0) expected prefix log = (Inl ExpectedNonZero, log)
   \<and> (key \<noteq> ''$'' \<and> lookupVar js vars key = Some (Own variable)
        \<and> variablesReference variable = 0
        \<and> failedSummary js shape (Some (varValue variable)) = None \<longrightarrow>
      compareKeys js backend vars ((key, EObj shape) # rest) prefix log
        = (Inl ExpectedNonZero, log))"
  by (simp add: Let_def)

theorem compareVariables_rejects_zero_witness:
  "compareVariables
      \<lparr>parseFloat = (\<lambda>s. 0::int), numEq = (=), looseEq = (\<lambda>_ _. False),
       inheritedMember = (\<lambda>_ k. k = ''constructor'')\<rparr>
      (\<lambda>r. Some [\<lparr>varName = ''a'', varValue = ''1'', variablesReference = 0\<rparr>])
      (Some 0) [(''a'', EObj [(''x'', ENull)])] [] []
    = (Inl ExpectedNonZero, [])
   \<and> compareKeys
      \<lparr>parseFloat = (\<lambda>s. 0::int), numEq = (=), looseEq = (\<lambda>_ _. False),
       inheritedMember = (\<lambda>_ k. k = ''constructor'')\<rparr>
      (\<lambda>r. Some [\<lparr>varName = ''a'', varValue = ''1'', variablesReference = 0\<rparr>])
      (collectVars [\<lparr>varName = ''a'', varValue = ''1'', variablesReference = 0\<rparr>])
      ((''a'', EObj [(''x'', ENull)]) # []) [] [Some 7]
    = (Inl ExpectedNonZero, [Some 7])"
proof -
  let ?js = "\<lparr>parseFloat = (\<lambda>s. 0::int), numEq = (=), looseEq = (\<lambda>_ _. False),
       inheritedMember = (\<lambda>_ k. k = ''constructor'')\<rparr>"
  let ?v = "\<lparr>varName = ''a'', varValue = ''1'', variablesReference = 0\<rparr>"
  let ?be = "\<lambda>r::int option. Some [?v]"
  have look: "lookupVar ?js (collectVars [?v]) ''a'' = Some (Own ?v)"
    by (simp add: collectVars_def assignVar_def lookupVar_def)
  have sum: "failedSummary ?js [(''x'', ENull)] (Some (varValue ?v)) = None"
    by (simp add: failedSummary_def)
  have key: "''a'' \<noteq> ''$''" "variablesReference ?v = 0"
    by simp_all
  show ?thesis
    using compareVariables_rejects_zero
      [where js = ?js and backend = ?be and expected = "[(''a'', EObj [(''x'', ENull)])]"
         and prefix = "[]" and log = "[]"]
      compareVariables_rejects_zero
      [where js = ?js and backend = ?be and prefix = "[]" and log = "[Some 7]" and key = "''a''"
         and vars = "collectVars [?v]" and variable = ?v and shape = "[(''x'', ENull)]"
         and rest = "[]"]
      look sum key
    by blast
qed

section \<open>Properties of \<open>expandDbgConfig\<close>\<close>

lemma tokenize_text: "concat (map tokenText (tokenize s)) = s"
proof (induction s rule: tokenize.induct)
  case 1
  show ?case by simp
next
  case (2 c cs)
  show ?case
  proof (cases "matchReference (c # cs)")
    case None
    have "tokenize (c # cs) = Literal c # tokenize cs"
      by (simp only: tokenize.simps None option.case)
    then show ?thesis
      using 2(1) [OF None] by simp
  next
    case (Some m)
    obtain ty key matched rest where m: "m = (ty, key, matched, rest)"
      by (cases m)
    have t: "tokenize (c # cs) = Reference ty key matched # tokenize rest"
      by (simp only: tokenize.simps Some m option.case prod.case)
    have IH: "concat (map tokenText (tokenize rest)) = rest"
      by (rule 2(2) [of m ty "(key, matched, rest)" key "(matched, rest)" matched rest])
         (simp_all only: Some m)
    have "matched @ rest = c # cs"
      using matchReference_text(1) [of "c # cs" ty key matched rest] Some m by simp
    then show ?thesis
      by (simp only: t list.map concat.simps tokenText.simps IH)
  qed
qed

lemma dbgconfigOnly_dbgconfigExpander: "dbgconfigOnly (dbgconfigExpander ns dbgconfig expanding)"
  by (simp add: dbgconfigOnly_def dbgconfigExpander_def)

lemma dbgconfigOnly_launchExpander: "dbgconfigOnly (launchExpander ns dbgconfig)"
  by (simp add: dbgconfigOnly_def launchExpander_def)

lemma expandTokens_unchanged:
  assumes "dbgconfigOnly expander"
  shows "dbgconfigKeys ts = [] \<Longrightarrow>
         expandTokens expander ts st = Inr (concat (map tokenText ts), st)"
proof (induction ts rule: dbgconfigKeys.induct)
  case 1
  show ?case by simp
next
  case (2 c ts)
  then show ?case by simp
next
  case (3 ty key matched ts)
  then have ty: "ty \<noteq> Some ''dbgconfig''" and rest: "dbgconfigKeys ts = []"
    by (auto split: if_splits)
  have "expander ty key st = Inr (None, st)"
    using assms ty by (simp add: dbgconfigOnly_def)
  then show ?case
    using 3 ty rest by simp
qed

lemma expandVariables_unchanged:
  "dbgconfigOnly expander \<Longrightarrow> references str = [] \<Longrightarrow>
   expandVariables expander str st = Inr (str, st)"
  by (simp add: expandVariables_def references_def expandTokens_unchanged tokenize_text)

lemma expandVariablesInObject_unchanged:
  fixes v :: "'n jsval" and xs :: "'n jsval list" and props :: "(string \<times> 'n jsval) list"
  shows "dbgconfigOnly expander \<Longrightarrow> fullyResolved v \<Longrightarrow>
         expandVariablesInObject expander v st = Inr (v, st)"
    and "dbgconfigOnly expander \<Longrightarrow> list_all fullyResolved xs \<Longrightarrow>
         expandElements expander xs st = Inr (xs, st)"
    and "dbgconfigOnly expander \<Longrightarrow> list_all fullyResolved (map snd props) \<Longrightarrow>
         expandProperties expander props st = Inr (props, st)"
  by (induction expander v st and expander xs st and expander props st
       rule: expandVariablesInObject_expandElements_expandProperties.induct)
     (simp_all add: expandVariables_unchanged)

lemma setProp_same: "map_of d prop = Some v \<Longrightarrow> setProp prop v d = d"
  by (induction d) (auto split: if_splits)

lemma map_of_resolved:
  "list_all fullyResolved (map snd d) \<Longrightarrow> map_of d k = Some v \<Longrightarrow> fullyResolved v"
  by (induction d) (auto split: if_splits)

lemma expandPass_skip_resolved:
  assumes "\<forall>k \<in> set ks. \<forall>v. map_of d k = Some v \<longrightarrow> fullyResolved v"
  shows "expandPass ns (ks @ ks') d converged = expandPass ns ks' d converged"
  using assms
proof (induction ks)
  case Nil
  show ?case by simp
next
  case (Cons k ks)
  show ?case
  proof (cases "map_of d k")
    case None
    then show ?thesis using Cons by simp
  next
    case (Some v)
    then have "fullyResolved v" using Cons.prems by simp
    then have "expandVariablesInObject (dbgconfigExpander ns d k) v converged = Inr (v, converged)"
      by (simp add: expandVariablesInObject_unchanged dbgconfigOnly_dbgconfigExpander)
    then show ?thesis
      using Some Cons by (simp add: setProp_same)
  qed
qed

lemma expandPass_resolved:
  assumes "list_all fullyResolved (map snd d)"
  shows "expandPass ns ks d converged = Inr (d, converged)"
proof -
  have "expandPass ns (ks @ []) d converged = expandPass ns [] d converged"
    using assms by (intro expandPass_skip_resolved) (auto dest: map_of_resolved)
  then show ?thesis by simp
qed

text \<open>
  C9. Let no value of the settings contain a reference of type \<open>dbgconfig\<close>; this includes
  the settings in which no value contains any reference \<open>${...}\<close> at all. Then the first
  pass of the loop replaces nothing: it returns the settings as they were, with
  \<open>converged\<close> still true, so the loop ends after that one pass with the settings unchanged.
  A launch configuration without such a reference is returned unchanged as well.
\<close>

theorem expandDbgConfig_idempotent:
  assumes "list_all fullyResolved (map snd dbgconfig)"
  shows "expandPass js (map fst dbgconfig) dbgconfig True = Inr (dbgconfig, True)
     \<and> fixedPoint js dbgconfig = Some (Inr dbgconfig)
     \<and> (fullyResolved debugConfig \<longrightarrow>
          expandDbgConfig js debugConfig dbgconfig = Some (Inr debugConfig))"
proof -
  have pass: "expandPass js (map fst dbgconfig) dbgconfig True = Inr (dbgconfig, True)"
    using assms by (rule expandPass_resolved)
  then have fp: "fixedPoint js dbgconfig = Some (Inr dbgconfig)"
    by (subst fixedPoint.simps) simp
  have "fullyResolved debugConfig \<longrightarrow>
          expandDbgConfig js debugConfig dbgconfig = Some (Inr debugConfig)"
    by (simp add: expandDbgConfig_def fp expandVariablesInObject_unchanged
          dbgconfigOnly_launchExpander)
  with pass fp show ?thesis by blast
qed

theorem expandDbgConfig_idempotent_witness:
  "fixedPoint (\<lparr>numToString = (\<lambda>n::nat. ''7''), inheritedToString = (\<lambda>k. if k = ''constructor'' then Some ''function Object() { [native code] }'' else None)\<rparr>)
      [(''root'', VStr ''${env:HOME}/src''), (''flags'', VArr [VNum 7, VStr ''-g'', VNull]),
       (''nested'', VObj [(''on'', VBool True)])]
     = Some (Inr [(''root'', VStr ''${env:HOME}/src''), (''flags'', VArr [VNum 7, VStr ''-g'', VNull]),
        (''nested'', VObj [(''on'', VBool True)])])
   \<and> expandDbgConfig (\<lparr>numToString = (\<lambda>n::nat. ''7''), inheritedToString = (\<lambda>k. if k = ''constructor'' then Some ''function Object() { [native code] }'' else None)\<rparr>) (VObj [(''program'', VStr ''a.out'')])
      [(''root'', VStr ''${env:HOME}/src''), (''flags'', VArr [VNum 7, VStr ''-g'', VNull]),
       (''nested'', VObj [(''on'', VBool True)])]
     = Some (Inr (VObj [(''program'', VStr ''a.out'')]))"
proof -
  let ?d = "[(''root'', VStr ''${env:HOME}/src''), (''flags'', VArr [VNum (7::nat), VStr ''-g'', VNull]),
       (''nested'', VObj [(''on'', VBool True)])]"
  have r1: "references ''${env:HOME}/src'' = []"
    by (simp add: references_def matchReference_def matchTyped_def matchKey_def)
  have r2: "references ''-g'' = []" "references ''a.out'' = []"
    by (simp_all add: references_def matchReference_def)
  have d: "list_all fullyResolved (map snd ?d)"
    by (simp add: r1 r2)
  have c: "fullyResolved (VObj [(''program'', VStr ''a.out'')] :: nat jsval)"
    by (simp add: r2)
  show ?thesis
    using expandDbgConfig_idempotent [OF d, of "\<lparr>numToString = (\<lambda>n::nat. ''7''), inheritedToString = (\<lambda>k. if k = ''constructor'' then Some ''function Object() { [native code] }'' else None)\<rparr>" "VObj [(''program'', VStr ''a.out'')]"] c
    by blast
qed
























































text \<open>
  Nor does every cycle end in one of the two errors. Below \<open>a\<close> refers to \<open>c\<close> and \<open>b\<close>, and
  \<open>b\<close> to \<open>a\<close>. The first pass puts the value \<open>${\<close> of \<open>c\<close> in front of the reference to \<open>a\<close>;
  the regular expression then reads \<open>${${dbgconfig:a}\<close> as one reference of the type
  \<open>${dbgconfig\<close>, which the expander leaves alone, and the second pass converges.
\<close>

lemma expandDbgConfig_hidden_cycle:
  "references ''${dbgconfig:c}${dbgconfig:b}'' = [''c'', ''b'']
   \<and> references ''${dbgconfig:a}'' = [''a'']
   \<and> fixedPoint ns
       [(''a'', VStr ''${dbgconfig:c}${dbgconfig:b}''), (''b'', VStr ''${dbgconfig:a}''),
        (''c'', VStr ''${'')]
     = Some (Inr [(''a'', VStr ''${${dbgconfig:a}''), (''b'', VStr ''${${dbgconfig:a}''),
                  (''c'', VStr ''${'')])"
proof -
  have p1: "expandPass ns [''a'', ''b'', ''c'']
       [(''a'', VStr ''${dbgconfig:c}${dbgconfig:b}''), (''b'', VStr ''${dbgconfig:a}''),
        (''c'', VStr ''${'')] True
     = Inr ([(''a'', VStr ''${${dbgconfig:a}''), (''b'', VStr ''${${dbgconfig:a}''),
             (''c'', VStr ''${'')], False)"
    by (simp add: expandVariables_def dbgconfigExpander_def valueText_def matchReference_def matchTyped_def
          matchKey_def)
  have p2: "expandPass ns [''a'', ''b'', ''c'']
       [(''a'', VStr ''${${dbgconfig:a}''), (''b'', VStr ''${${dbgconfig:a}''),
        (''c'', VStr ''${'')] True
     = Inr ([(''a'', VStr ''${${dbgconfig:a}''), (''b'', VStr ''${${dbgconfig:a}''),
             (''c'', VStr ''${'')], True)"
    by (simp add: expandVariables_def dbgconfigExpander_def valueText_def matchReference_def matchTyped_def
          matchKey_def)
  have "fixedPoint ns
       [(''a'', VStr ''${${dbgconfig:a}''), (''b'', VStr ''${${dbgconfig:a}''),
        (''c'', VStr ''${'')]
     = Some (Inr [(''a'', VStr ''${${dbgconfig:a}''), (''b'', VStr ''${${dbgconfig:a}''),
                  (''c'', VStr ''${'')])"
    by (subst fixedPoint.simps)
       (simp only: list.map fst_conv p2 sum.case prod.case if_True)
  then have "fixedPoint ns
       [(''a'', VStr ''${dbgconfig:c}${dbgconfig:b}''), (''b'', VStr ''${dbgconfig:a}''),
        (''c'', VStr ''${'')]
     = Some (Inr [(''a'', VStr ''${${dbgconfig:a}''), (''b'', VStr ''${${dbgconfig:a}''),
                  (''c'', VStr ''${'')])"
    by (subst fixedPoint.simps)
       (simp only: list.map fst_conv p1 sum.case prod.case if_False)
  moreover have "references ''${dbgconfig:c}${dbgconfig:b}'' = [''c'', ''b'']"
    "references ''${dbgconfig:a}'' = [''a'']"
    by (simp_all add: references_def matchReference_def matchTyped_def matchKey_def)
  ultimately show ?thesis by blast
qed

text \<open>
  The loop need not end at all. On the settings
  \<open>{p: "$${dbgconfig:q1}{dbgconfig:q2}", q1: "$$", q2: "{dbgconfig:q1}{dbgconfig:q2}"}\<close>
  one pass makes the value of \<open>p\<close> the text \<open>$$${dbgconfig:q2}\<close>, the next pass makes it
  \<open>$${dbgconfig:q1}{dbgconfig:q2}\<close> again, and no pass converges or throws. With the keys
  \<open>a\<close>, \<open>b\<close>, \<open>c\<close> of the hidden cycle in front, the settings contain a reference cycle and
  the loop does not end either.
\<close>

lemma oscillation_first_pass:
  "expandPass js [''p'', ''q1'', ''q2'']
     [(''p'', VStr ''$${dbgconfig:q1}{dbgconfig:q2}''), (''q1'', VStr ''$$''),
      (''q2'', VStr ''{dbgconfig:q1}{dbgconfig:q2}'')] True
   = Inr ([(''p'', VStr ''$$${dbgconfig:q2}''), (''q1'', VStr ''$$''),
      (''q2'', VStr ''{dbgconfig:q1}{dbgconfig:q2}'')], False)"
  by (simp add: expandVariables_def dbgconfigExpander_def valueText_def matchReference_def
        matchTyped_def matchKey_def)

lemma oscillation_second_pass:
  "expandPass js [''p'', ''q1'', ''q2'']
     [(''p'', VStr ''$$${dbgconfig:q2}''), (''q1'', VStr ''$$''),
      (''q2'', VStr ''{dbgconfig:q1}{dbgconfig:q2}'')] True
   = Inr ([(''p'', VStr ''$${dbgconfig:q1}{dbgconfig:q2}''), (''q1'', VStr ''$$''),
      (''q2'', VStr ''{dbgconfig:q1}{dbgconfig:q2}'')], False)"
  by (simp add: expandVariables_def dbgconfigExpander_def valueText_def matchReference_def
        matchTyped_def matchKey_def)

lemma fixedPoint_oscillation:
  assumes "expandPass js (map fst first) first True = Inr (second, False)"
    and "expandPass js (map fst second) second True = Inr (first, False)"
  shows "fixedPoint js first = None"
proof -
  have no: "\<not> (js' = js \<and> (d = first \<or> d = second))" if run: "fixedPoint js' d = Some y" for js' d y
  proof (rule fixedPoint.raw_induct
      [where P = "\<lambda>js' d y. \<not> (js' = js \<and> (d = first \<or> d = second))" and js = js' and dbgconfig = d
         and y = y])
    show "fixedPoint js' d = Some y" by fact
  next
    fix fp js' d y
    assume IH: "\<And>js' d y. fp js' d = Some y \<Longrightarrow> \<not> (js' = js \<and> (d = first \<or> d = second))"
      and body: "(case expandPass js' (map fst d) d True of
          Inl e \<Rightarrow> Some (Inl e)
        | Inr (dbgconfig', converged) \<Rightarrow>
            if converged then Some (Inr dbgconfig') else fp js' dbgconfig') = Some y"
    show "\<not> (js' = js \<and> (d = first \<or> d = second))"
    proof
      assume a: "js' = js \<and> (d = first \<or> d = second)"
      then have js: "js' = js" by simp
      from a have "d = first \<or> d = second" by simp
      then show False
      proof
        assume "d = first"
        then have "fp js second = Some y"
          using body js by (simp only: assms(1) sum.case prod.case if_False)
        then show False using IH by blast
      next
        assume "d = second"
        then have "fp js first = Some y"
          using body js by (simp only: assms(2) sum.case prod.case if_False)
        then show False using IH by blast
      qed
    qed
  qed
  show ?thesis
  proof (cases "fixedPoint js first")
    case None
    then show ?thesis .
  next
    case (Some y)
    then show ?thesis using no [of js first y] by simp
  qed
qed

lemma fixedPoint_never_ends:
  "fixedPoint js
     [(''p'', VStr ''$${dbgconfig:q1}{dbgconfig:q2}''), (''q1'', VStr ''$$''),
      (''q2'', VStr ''{dbgconfig:q1}{dbgconfig:q2}'')] = None
   \<and> expandDbgConfig js debugConfig
     [(''p'', VStr ''$${dbgconfig:q1}{dbgconfig:q2}''), (''q1'', VStr ''$$''),
      (''q2'', VStr ''{dbgconfig:q1}{dbgconfig:q2}'')] = None"
proof -
  have "fixedPoint js
     [(''p'', VStr ''$${dbgconfig:q1}{dbgconfig:q2}''), (''q1'', VStr ''$$''),
      (''q2'', VStr ''{dbgconfig:q1}{dbgconfig:q2}'')] = None"
    by (rule fixedPoint_oscillation
        [where second = "[(''p'', VStr ''$$${dbgconfig:q2}''), (''q1'', VStr ''$$''),
           (''q2'', VStr ''{dbgconfig:q1}{dbgconfig:q2}'')]"])
      (simp_all only: list.map fst_conv oscillation_first_pass oscillation_second_pass)
  then show ?thesis
    by (simp add: expandDbgConfig_def)
qed

lemma cycle_first_pass:
  "expandPass js [''a'', ''b'', ''c'', ''p'', ''q1'', ''q2'']
     [(''a'', VStr ''${dbgconfig:c}${dbgconfig:b}''), (''b'', VStr ''${dbgconfig:a}''),
      (''c'', VStr ''${''),
      (''p'', VStr ''$${dbgconfig:q1}{dbgconfig:q2}''), (''q1'', VStr ''$$''),
      (''q2'', VStr ''{dbgconfig:q1}{dbgconfig:q2}'')] True
   = Inr ([(''a'', VStr ''${${dbgconfig:a}''), (''b'', VStr ''${${dbgconfig:a}''),
      (''c'', VStr ''${''),
      (''p'', VStr ''$$${dbgconfig:q2}''), (''q1'', VStr ''$$''),
      (''q2'', VStr ''{dbgconfig:q1}{dbgconfig:q2}'')], False)"
  by (simp add: expandVariables_def dbgconfigExpander_def valueText_def matchReference_def
        matchTyped_def matchKey_def)

lemma cycle_second_pass:
  "expandPass js [''a'', ''b'', ''c'', ''p'', ''q1'', ''q2'']
     [(''a'', VStr ''${${dbgconfig:a}''), (''b'', VStr ''${${dbgconfig:a}''),
      (''c'', VStr ''${''),
      (''p'', VStr ''$$${dbgconfig:q2}''), (''q1'', VStr ''$$''),
      (''q2'', VStr ''{dbgconfig:q1}{dbgconfig:q2}'')] True
   = Inr ([(''a'', VStr ''${${dbgconfig:a}''), (''b'', VStr ''${${dbgconfig:a}''),
      (''c'', VStr ''${''),
      (''p'', VStr ''$${dbgconfig:q1}{dbgconfig:q2}''), (''q1'', VStr ''$$''),
      (''q2'', VStr ''{dbgconfig:q1}{dbgconfig:q2}'')], False)"
  by (simp add: expandVariables_def dbgconfigExpander_def valueText_def matchReference_def
        matchTyped_def matchKey_def)

lemma cycle_third_pass:
  "expandPass js [''a'', ''b'', ''c'', ''p'', ''q1'', ''q2'']
     [(''a'', VStr ''${${dbgconfig:a}''), (''b'', VStr ''${${dbgconfig:a}''),
      (''c'', VStr ''${''),
      (''p'', VStr ''$${dbgconfig:q1}{dbgconfig:q2}''), (''q1'', VStr ''$$''),
      (''q2'', VStr ''{dbgconfig:q1}{dbgconfig:q2}'')] True
   = Inr ([(''a'', VStr ''${${dbgconfig:a}''), (''b'', VStr ''${${dbgconfig:a}''),
      (''c'', VStr ''${''),
      (''p'', VStr ''$$${dbgconfig:q2}''), (''q1'', VStr ''$$''),
      (''q2'', VStr ''{dbgconfig:q1}{dbgconfig:q2}'')], False)"
  by (simp add: expandVariables_def dbgconfigExpander_def valueText_def matchReference_def
        matchTyped_def matchKey_def)

lemma expandDbgConfig_cycle_never_ends:
  "referenceCycle
     [(''a'', VStr ''${dbgconfig:c}${dbgconfig:b}''), (''b'', VStr ''${dbgconfig:a}''),
      (''c'', VStr ''${''),
      (''p'', VStr ''$${dbgconfig:q1}{dbgconfig:q2}''), (''q1'', VStr ''$$''),
      (''q2'', VStr ''{dbgconfig:q1}{dbgconfig:q2}'')] [''b'', ''a'']
   \<and> fixedPoint js
     [(''a'', VStr ''${dbgconfig:c}${dbgconfig:b}''), (''b'', VStr ''${dbgconfig:a}''),
      (''c'', VStr ''${''),
      (''p'', VStr ''$${dbgconfig:q1}{dbgconfig:q2}''), (''q1'', VStr ''$$''),
      (''q2'', VStr ''{dbgconfig:q1}{dbgconfig:q2}'')] = None
   \<and> expandDbgConfig js debugConfig
     [(''a'', VStr ''${dbgconfig:c}${dbgconfig:b}''), (''b'', VStr ''${dbgconfig:a}''),
      (''c'', VStr ''${''),
      (''p'', VStr ''$${dbgconfig:q1}{dbgconfig:q2}''), (''q1'', VStr ''$$''),
      (''q2'', VStr ''{dbgconfig:q1}{dbgconfig:q2}'')] = None"
proof -
  have "fixedPoint js
     [(''a'', VStr ''${${dbgconfig:a}''), (''b'', VStr ''${${dbgconfig:a}''),
      (''c'', VStr ''${''),
      (''p'', VStr ''$$${dbgconfig:q2}''), (''q1'', VStr ''$$''),
      (''q2'', VStr ''{dbgconfig:q1}{dbgconfig:q2}'')] = None"
    by (rule fixedPoint_oscillation
        [where second = "[(''a'', VStr ''${${dbgconfig:a}''), (''b'', VStr ''${${dbgconfig:a}''),
           (''c'', VStr ''${''),
           (''p'', VStr ''$${dbgconfig:q1}{dbgconfig:q2}''), (''q1'', VStr ''$$''),
           (''q2'', VStr ''{dbgconfig:q1}{dbgconfig:q2}'')]"])
      (simp_all only: list.map fst_conv cycle_second_pass cycle_third_pass)
  then have fp: "fixedPoint js
     [(''a'', VStr ''${dbgconfig:c}${dbgconfig:b}''), (''b'', VStr ''${dbgconfig:a}''),
      (''c'', VStr ''${''),
      (''p'', VStr ''$${dbgconfig:q1}{dbgconfig:q2}''), (''q1'', VStr ''$$''),
      (''q2'', VStr ''{dbgconfig:q1}{dbgconfig:q2}'')] = None"
    by (subst fixedPoint.simps)
       (simp only: list.map fst_conv cycle_first_pass sum.case prod.case if_False)
  then have "expandDbgConfig js debugConfig
     [(''a'', VStr ''${dbgconfig:c}${dbgconfig:b}''), (''b'', VStr ''${dbgconfig:a}''),
      (''c'', VStr ''${''),
      (''p'', VStr ''$${dbgconfig:q1}{dbgconfig:q2}''), (''q1'', VStr ''$$''),
      (''q2'', VStr ''{dbgconfig:q1}{dbgconfig:q2}'')] = None"
    by (simp add: expandDbgConfig_def)
  moreover have "referenceCycle
     [(''a'', VStr ''${dbgconfig:c}${dbgconfig:b}''), (''b'', VStr ''${dbgconfig:a}''),
      (''c'', VStr ''${''),
      (''p'', VStr ''$${dbgconfig:q1}{dbgconfig:q2}''), (''q1'', VStr ''$$''),
      (''q2'', VStr ''{dbgconfig:q1}{dbgconfig:q2}'')] [''b'', ''a'']"
    by (simp add: referenceCycle_def closedWalk_def refersTo_def references_def
          matchReference_def matchTyped_def matchKey_def)
  ultimately show ?thesis using fp by blast
qed

end
